theory Spec2Isabelle
  imports Complex_Main "HOL-Library.Multiset"
begin

section \<open>Data model (model/core.py)\<close>

text \<open>
  Python floats (virtual time, durations, thresholds) are read as real numbers, Python
  integers as \<open>int\<close>, \<open>Optional[t]\<close> as \<open>t option\<close>. Logging through the
  log callback changes no state of the model and is left out.
\<close>

datatype py_error = ValueError | TypeError | IndexError

text \<open>class Request (a dataclass). The field \<open>node_id\<close> of the request is the id of the
  node that served it.\<close>

record Request =
  request_id :: int
  arrival_time :: real
  queue_entry_time :: "real option"
  start_time :: "real option"
  finish_time :: "real option"
  node_id :: "int option"
  rejected :: bool
  rejected_reason :: "string option"
  service_time :: "real option"

text \<open>\<open>Request(request_id=..., arrival_time=...)\<close>: every other field takes its default.\<close>

definition new_Request :: "int \<Rightarrow> real \<Rightarrow> Request" where
  "new_Request rid t =
     \<lparr>request_id = rid, arrival_time = t, queue_entry_time = None, start_time = None,
      finish_time = None, node_id = None, rejected = False, rejected_reason = None,
      service_time = None\<rparr>"

text \<open>\<open>arrival_time\<close> is a float in every request the model builds, so the test
  \<open>self.arrival_time is not None\<close> of the source is always true.\<close>

definition get_response_time :: "Request \<Rightarrow> real option" where
  "get_response_time r =
     (case finish_time r of Some f \<Rightarrow> Some (f - arrival_time r) | None \<Rightarrow> None)"

definition get_wait_time :: "Request \<Rightarrow> real option" where
  "get_wait_time r =
     (case (start_time r, queue_entry_time r) of
        (Some s, Some q) \<Rightarrow> Some (s - q)
      | _ \<Rightarrow> None)"

text \<open>class StorageNode. \<open>sn_node_id\<close> is the field \<open>node_id\<close> of the node (renamed: the
  request has a field of that name too). \<open>users\<close> holds the ids of the requests that occupy
  a slot of the node's \<open>simpy.Resource\<close>; the source reads only its length.\<close>

record StorageNode =
  sn_node_id :: int
  capacity :: int
  is_active :: bool
  users :: "int list"

definition new_StorageNode :: "int \<Rightarrow> int \<Rightarrow> StorageNode" where
  "new_StorageNode nid cap = \<lparr>sn_node_id = nid, capacity = cap, is_active = True, users = []\<rparr>"

section \<open>Load balancer (model/load\_balancer.py)\<close>

record LoadBalancer =
  current_index :: int

definition new_LoadBalancer :: LoadBalancer where
  "new_LoadBalancer = \<lparr>current_index = 0\<rparr>"

text \<open>\<open>select_node\<close> returns the chosen node (or None) and the balancer after the call.
  Python's \<open>%\<close> with a positive right operand is \<open>mod\<close> on \<open>int\<close>, so the index is
  in range of \<open>active_nodes\<close> and the subscript never raises.\<close>

definition select_node :: "LoadBalancer \<Rightarrow> StorageNode list \<Rightarrow> StorageNode option \<times> LoadBalancer" where
  "select_node lb nodes =
     (if nodes = [] then (None, lb)
      else
        let active_nodes = filter is_active nodes in
        if active_nodes = [] then (None, lb)
        else
          let selected = active_nodes ! nat (current_index lb mod int (length active_nodes)) in
          (Some selected,
           lb\<lparr>current_index := (current_index lb + 1) mod int (length active_nodes)\<rparr>))"

section \<open>The model of the cluster (model/core.py)\<close>

text \<open>
  \<open>simpy\<close> is a library outside the repository. Of it the model keeps what the source
  relies on: the clock \<open>env.now\<close> (passed as the argument \<open>now\<close>), a \<open>Store\<close> with
  a capacity (None stands for the infinite capacity that is the default of \<open>simpy\<close>,
  which the source never takes) and its list \<open>items\<close>, a \<open>Resource\<close> with a capacity and its
  list \<open>users\<close>, and the argument checks of the constructors and of \<open>timeout\<close>
  (a capacity that is not positive and a negative delay raise ValueError). The
  constructor of \<open>Store\<close> tests \<open>capacity <= 0\<close>; for the capacity None that
  comparison raises TypeError, so no store is built.
\<close>

record Store =
  store_capacity :: "int option"
  items :: "Request list"


text \<open>\<open>StorageNode(env, node_id, capacity)\<close> builds \<open>simpy.Resource(env, capacity)\<close>.\<close>

definition StorageNode_init :: "int \<Rightarrow> int \<Rightarrow> py_error + StorageNode" where
  "StorageNode_init nid cap = (if cap \<le> 0 then Inl ValueError else Inr (new_StorageNode nid cap))"

text \<open>class CloudSystemModel. \<open>global_capacity\<close> is None on both branches of the
  constructor and never read; it is left out.\<close>

record CloudSystemModel =
  lambda_rate :: real
  service_time_min :: real
  service_time_max :: real
  net_delay_min :: real
  net_delay_max :: real
  max_requests_in_flight :: "int option"
  node_capacity :: int
  max_wait_time :: "real option"
  queue :: Store
  nodes :: "StorageNode list"
  next_request_id :: int
  processed_requests :: "Request list"
  rejected_requests :: "Request list"
  is_running :: bool
  is_paused :: bool

definition add_node :: "CloudSystemModel \<Rightarrow> py_error + (StorageNode \<times> CloudSystemModel)" where
  "add_node m =
     (case StorageNode_init (int (length (nodes m))) (node_capacity m) of
        Inl e \<Rightarrow> Inl e
      | Inr node \<Rightarrow> Inr (node, m\<lparr>nodes := nodes m @ [node]\<rparr>))"

text \<open>\<open>remove_node\<close> pops the last node of the pool and marks the popped object inactive;
  the object is no longer in \<open>self.nodes\<close>, so the mark is not visible in the model.\<close>

definition remove_node :: "CloudSystemModel \<Rightarrow> bool \<times> CloudSystemModel" where
  "remove_node m =
     (if length (nodes m) > 0 then (True, m\<lparr>nodes := butlast (nodes m)\<rparr>) else (False, m))"

definition get_active_nodes :: "CloudSystemModel \<Rightarrow> StorageNode list" where
  "get_active_nodes m = filter is_active (nodes m)"

definition get_queue_length :: "CloudSystemModel \<Rightarrow> int" where
  "get_queue_length m = int (length (items (queue m)))"

text \<open>\<open>len(self.model.get_active_nodes())\<close>, the number the controller compares with its
  bounds.\<close>

definition active_count :: "CloudSystemModel \<Rightarrow> int" where
  "active_count m = int (length (get_active_nodes m))"


text \<open>\<open>for i in range(initial_nodes): self.add_node()\<close>\<close>

fun add_nodes :: "nat \<Rightarrow> CloudSystemModel \<Rightarrow> py_error + CloudSystemModel" where
  "add_nodes 0 m = Inr m"
| "add_nodes (Suc k) m =
     (case add_node m of Inl e \<Rightarrow> Inl e | Inr (node, m') \<Rightarrow> add_nodes k m')"

definition queue_capacity_of :: "int option \<Rightarrow> int option" where
  "queue_capacity_of cap = (case cap of None \<Rightarrow> None | Some c \<Rightarrow> Some (c * 10))"



section \<open>Autoscaling controller (model/autoscaler.py)\<close>

text \<open>The metrics dictionary: the keys are strings, the values numbers.
  \<open>dict_get d k v\<close> is \<open>d.get(k, v)\<close>.\<close>

type_synonym metrics = "string \<rightharpoonup> real"

definition dict_get :: "metrics \<Rightarrow> string \<Rightarrow> real \<Rightarrow> real" where
  "dict_get d k dflt = (case d k of None \<Rightarrow> dflt | Some v \<Rightarrow> v)"

text \<open>class AutoScaler. The controller reaches the clock and the model through
  \<open>self.env\<close> and \<open>self.model\<close>; here they are arguments (\<open>now\<close>, \<open>m\<close>) and the changed
  model is returned. \<open>as_is_running\<close> and \<open>as_is_paused\<close> are the flags \<open>is_running\<close>
  and \<open>is_paused\<close> of the controller.\<close>

record AutoScaler =
  min_nodes :: int
  max_nodes :: int
  low_threshold :: real
  high_threshold :: real
  control_interval :: real
  scale_cooldown :: real
  last_scale_time :: real
  consecutive_low_intervals :: int
  required_consecutive_low :: int
  metrics_history :: "metrics list"
  interval_start_time :: real
  interval_queue_lengths :: "(real \<times> int) list"
  interval_response_times :: "real list"
  as_is_running :: bool
  as_is_paused :: bool


definition should_scale_up :: "real \<Rightarrow> CloudSystemModel \<Rightarrow> AutoScaler \<Rightarrow> metrics \<Rightarrow> bool" where
  "should_scale_up now m s metrics =
     (let queue_length = dict_get metrics ''queue_length'' 0;
          avg_response_time = dict_get metrics ''avg_response_time'' 0;
          condition = (queue_length > high_threshold s \<or> avg_response_time > high_threshold s);
          current_nodes = int (length (get_active_nodes m));
          can_scale = (current_nodes < max_nodes s);
          time_since_last_scale = now - last_scale_time s;
          cooldown_ok = (time_since_last_scale \<ge> scale_cooldown s)
      in condition \<and> can_scale \<and> cooldown_ok)"

text \<open>\<open>should_scale_down\<close> writes the counter, so it returns the controller too.\<close>

definition should_scale_down :: "real \<Rightarrow> CloudSystemModel \<Rightarrow> AutoScaler \<Rightarrow> metrics \<Rightarrow> bool \<times> AutoScaler" where
  "should_scale_down now m s metrics =
     (let queue_length = dict_get metrics ''queue_length'' 0;
          avg_response_time = dict_get metrics ''avg_response_time'' 0;
          condition = (queue_length < low_threshold s \<and> avg_response_time < low_threshold s);
          current_nodes = int (length (get_active_nodes m));
          can_scale = (current_nodes > min_nodes s);
          time_since_last_scale = now - last_scale_time s;
          cooldown_ok = (time_since_last_scale \<ge> scale_cooldown s)
      in if condition \<and> can_scale \<and> cooldown_ok
         then
           let s' = s\<lparr>consecutive_low_intervals := consecutive_low_intervals s + 1\<rparr>
           in (consecutive_low_intervals s' \<ge> required_consecutive_low s', s')
         else (False, s\<lparr>consecutive_low_intervals := 0\<rparr>))"

text \<open>The test of the \<open>if\<close> in \<open>should_scale_down\<close>, on its own: the interval is a
  qualifying low interval.\<close>

definition low_interval_qualifies :: "real \<Rightarrow> CloudSystemModel \<Rightarrow> AutoScaler \<Rightarrow> metrics \<Rightarrow> bool" where
  "low_interval_qualifies now m s metrics =
     ((dict_get metrics ''queue_length'' 0 < low_threshold s \<and>
       dict_get metrics ''avg_response_time'' 0 < low_threshold s) \<and>
      int (length (get_active_nodes m)) > min_nodes s \<and>
      now - last_scale_time s \<ge> scale_cooldown s)"

definition scale_up :: "real \<Rightarrow> CloudSystemModel \<Rightarrow> AutoScaler \<Rightarrow> py_error + (bool \<times> CloudSystemModel \<times> AutoScaler)" where
  "scale_up now m s =
     (let current_nodes = int (length (get_active_nodes m)) in
      if current_nodes < max_nodes s
      then (case add_node m of
              Inl e \<Rightarrow> Inl e
            | Inr (node, m') \<Rightarrow>
                Inr (True, m', s\<lparr>last_scale_time := now, consecutive_low_intervals := 0\<rparr>))
      else Inr (False, m, s))"

definition scale_down :: "real \<Rightarrow> CloudSystemModel \<Rightarrow> AutoScaler \<Rightarrow> bool \<times> CloudSystemModel \<times> AutoScaler" where
  "scale_down now m s =
     (let current_nodes = int (length (get_active_nodes m)) in
      if current_nodes > min_nodes s
      then (True, snd (remove_node m), s\<lparr>last_scale_time := now, consecutive_low_intervals := 0\<rparr>)
      else (False, m, s))"

text \<open>The body of \<open>metrics_collector_loop\<close> after its timeout.\<close>

definition metrics_collector_sample :: "real \<Rightarrow> CloudSystemModel \<Rightarrow> AutoScaler \<Rightarrow> AutoScaler" where
  "metrics_collector_sample now m s =
     s\<lparr>interval_queue_lengths := interval_queue_lengths s @ [(now, get_queue_length m)]\<rparr>"

text \<open>The loop of \<open>_calculate_interval_metrics\<close> over neighbouring samples: the mean of
  the two queue lengths times the time between them, for the steps that take time.\<close>

fun interval_area_loop :: "(real \<times> int) list \<Rightarrow> real \<times> real \<Rightarrow> real \<times> real" where
  "interval_area_loop ((t1, q1) # (t2, q2) # rest) (total_area, total_time) =
     (let dt = t2 - t1 in
      interval_area_loop ((t2, q2) # rest)
        (if dt > 0
         then (let avg_q = real_of_int (q1 + q2) / 2 in (total_area + avg_q * dt, total_time + dt))
         else (total_area, total_time)))"
| "interval_area_loop samples acc = acc"

definition interval_avg_queue_length :: "(real \<times> int) list \<Rightarrow> int \<Rightarrow> real" where
  "interval_avg_queue_length samples current_queue_length =
     (if length samples > 1
      then
        (let (total_area, total_time) = interval_area_loop samples (0, 0) in
         if total_time > 0 then total_area / total_time else real_of_int current_queue_length)
      else if samples \<noteq> [] then real_of_int (snd (last samples))
      else real_of_int current_queue_length)"

text \<open>\<open>sum(xs) / len(xs)\<close> where the source has checked that \<open>xs\<close> is not empty.\<close>

definition mean :: "real list \<Rightarrow> real" where
  "mean xs = sum_list xs / real (length xs)"

definition calculate_interval_metrics :: "real \<Rightarrow> CloudSystemModel \<Rightarrow> AutoScaler \<Rightarrow> metrics \<times> AutoScaler" where
  "calculate_interval_metrics interval_end_time m s =
     (let current_queue_length = get_queue_length m;
          samples =
            (if interval_queue_lengths s = [] \<or> fst (last (interval_queue_lengths s)) < interval_end_time
             then interval_queue_lengths s @ [(interval_end_time, current_queue_length)]
             else interval_queue_lengths s);
          processed = processed_requests m;
          in_interval =
            List.map_filter
              (\<lambda>r. case finish_time r of
                     None \<Rightarrow> None
                   | Some f \<Rightarrow>
                       if f \<ge> interval_start_time s \<and> f \<le> interval_end_time
                       then get_response_time r else None)
              processed;
          response_times = interval_response_times s @ in_interval;
          avg_queue_length = interval_avg_queue_length samples current_queue_length;
          avg_response_time =
            (if response_times \<noteq> [] then mean response_times
             else if processed \<noteq> []
             then (let all_times = List.map_filter get_response_time processed in
                   if all_times \<noteq> [] then mean all_times else 0)
             else 0)
      in ([''queue_length'' \<mapsto> avg_queue_length,
           ''avg_response_time'' \<mapsto> avg_response_time,
           ''active_nodes'' \<mapsto> real (length (get_active_nodes m))],
          s\<lparr>interval_queue_lengths := samples, interval_response_times := response_times\<rparr>))"

text \<open>What one pass of \<open>control_loop\<close> did to the pool.\<close>

datatype scaling = Scale_up | Scale_down | No_scaling

text \<open>The decision of \<open>control_loop\<close>: \<open>if self.should_scale_up(metrics): self.scale_up()
  elif self.should_scale_down(metrics): self.scale_down()\<close>. The source drops the boolean
  that \<open>scale_up\<close> and \<open>scale_down\<close> return; the model reports it as the \<open>scaling\<close>
  done. The last branch of the source only logs.\<close>

definition control_decision :: "real \<Rightarrow> metrics \<Rightarrow> CloudSystemModel \<Rightarrow> AutoScaler \<Rightarrow> py_error + (scaling \<times> CloudSystemModel \<times> AutoScaler)" where
  "control_decision now metrics m s =
     (if should_scale_up now m s metrics
      then (case scale_up now m s of
              Inl e \<Rightarrow> Inl e
            | Inr (ok, m', s') \<Rightarrow> Inr (if ok then Scale_up else No_scaling, m', s'))
      else
        (let (down, s1) = should_scale_down now m s metrics in
         if down
         then (let (ok, m', s') = scale_down now m s1
               in Inr (if ok then Scale_down else No_scaling, m', s'))
         else Inr (No_scaling, m, s1)))"

text \<open>One pass of the loop of \<open>control_loop\<close>, from the end of its timeout.\<close>

definition control_loop_pass :: "real \<Rightarrow> CloudSystemModel \<Rightarrow> AutoScaler \<Rightarrow> py_error + (scaling \<times> CloudSystemModel \<times> AutoScaler)" where
  "control_loop_pass now m s =
     (let (metrics, s1) = calculate_interval_metrics now m s;
          s2 = s1\<lparr>metrics_history := metrics_history s1 @ [metrics(''time'' \<mapsto> now)]\<rparr>
      in case control_decision now metrics m s2 of
           Inl e \<Rightarrow> Inl e
         | Inr (a, m', s3) \<Rightarrow>
             Inr (a, m', s3\<lparr>interval_start_time := now, interval_queue_lengths := [],
                            interval_response_times := []\<rparr>))"

text \<open>A run of the controller: the passes of \<open>control_loop\<close> one after another, each with
  the clock and the metrics of its interval. Between two passes the rest of the simulation
  changes the queue and the request lists but not the pool, and the decision reads only the
  pool. The second component of the result lists the scalings done, each with its time.\<close>

fun run_controller :: "(real \<times> metrics) list \<Rightarrow> CloudSystemModel \<Rightarrow> AutoScaler \<Rightarrow> py_error + ((real \<times> scaling) list \<times> CloudSystemModel \<times> AutoScaler)" where
  "run_controller [] m s = Inr ([], m, s)"
| "run_controller ((now, metrics) # ticks) m s =
     (case control_decision now metrics m s of
        Inl e \<Rightarrow> Inl e
      | Inr (a, m', s') \<Rightarrow>
          (case run_controller ticks m' s' of
             Inl e \<Rightarrow> Inl e
           | Inr (acts, m'', s'') \<Rightarrow>
               Inr ((if a = No_scaling then [] else [(now, a)]) @ acts, m'', s'')))"

section \<open>The request path (model/core.py)\<close>

text \<open>
  The generator functions of the source run as \<open>simpy\<close> processes: each runs until its next
  \<open>yield\<close> and resumes when the event it waits for fires. The model has one function for
  each stretch of code between two \<open>yield\<close>s, and takes what the libraries supply as
  arguments: the clock, and the numbers drawn by \<open>numpy.random\<close>.
\<close>

text \<open>\<open>np.random.uniform(low, high)\<close> returns a number between its bounds.\<close>

definition uniform_sample :: "real \<Rightarrow> real \<Rightarrow> real \<Rightarrow> bool" where
  "uniform_sample low high u = (min low high \<le> u \<and> u \<le> max low high)"

text \<open>\<open>generate_network_delay\<close>, with \<open>u\<close> the number drawn.\<close>

definition generate_network_delay :: "CloudSystemModel \<Rightarrow> real \<Rightarrow> real" where
  "generate_network_delay m u = (if net_delay_max m > net_delay_min m then u else net_delay_min m)"

text \<open>\<open>env.timeout(delay)\<close>: the time at which the timeout fires; a negative delay raises.\<close>

definition timeout :: "real \<Rightarrow> real \<Rightarrow> py_error + real" where
  "timeout now delay = (if delay < 0 then Inl ValueError else Inr (now + delay))"

text \<open>What \<open>yield self.queue.put(request)\<close> can do to the generator: the item is stored and
  the generator goes on, the put stays pending and the generator stays suspended, or an
  exception is raised at the \<open>yield\<close>.\<close>

datatype put_outcome = Put_stored Store | Put_pending | Put_raised

definition has_room :: "Store \<Rightarrow> bool" where
  "has_room q = (case store_capacity q of None \<Rightarrow> True | Some c \<Rightarrow> int (length (items q)) < c)"

text \<open>The put of \<open>simpy.Store\<close>: with room the item is appended at once, without room the
  put waits. It never raises.\<close>

definition simpy_put :: "Store \<Rightarrow> Request \<Rightarrow> put_outcome" where
  "simpy_put q r = (if has_room q then Put_stored (q\<lparr>items := items q @ [r]\<rparr>) else Put_pending)"


text \<open>\<open>len(self.queue.items) + sum(len(node.resource.users) for node in self.nodes)\<close>\<close>

definition current_in_system :: "CloudSystemModel \<Rightarrow> int" where
  "current_in_system m =
     int (length (items (queue m))) + sum_list (map (\<lambda>node. int (length (users node))) (nodes m))"

definition reject :: "Request \<Rightarrow> string \<Rightarrow> Request" where
  "reject r reason = r\<lparr>rejected := True, rejected_reason := Some reason\<rparr>"

text \<open>What became of a request in \<open>request_generator\<close>: rejected by the check against
  \<open>max_requests_in_flight\<close>, put into the queue, left waiting in a pending put, or rejected
  by the \<open>except\<close> branch.\<close>

datatype arrival_outcome = Rejected_at_cap | Enqueued | Put_waits Request | Rejected_in_handler

text \<open>The body of the loop of \<open>request_generator\<close> from the end of its timeout: \<open>now\<close> is
  the clock, \<open>service\<close> the service time drawn, \<open>put\<close> the behaviour of the queue's put.\<close>

definition request_generator_arrival :: "(Store \<Rightarrow> Request \<Rightarrow> put_outcome) \<Rightarrow> real \<Rightarrow> real \<Rightarrow> CloudSystemModel \<Rightarrow> arrival_outcome \<times> CloudSystemModel" where
  "request_generator_arrival put now service m =
     (let request = (new_Request (next_request_id m) now)\<lparr>service_time := Some service\<rparr>;
          m1 = m\<lparr>next_request_id := next_request_id m + 1\<rparr>;
          over_cap =
            (case max_requests_in_flight m1 of
               None \<Rightarrow> False
             | Some cap \<Rightarrow> current_in_system m1 \<ge> cap)
      in if over_cap
         then (Rejected_at_cap,
               m1\<lparr>rejected_requests := rejected_requests m1 @ [reject request ''queue_full'']\<rparr>)
         else
           (let queued = request\<lparr>queue_entry_time := Some now\<rparr> in
            case put (queue m1) queued of
              Put_stored q' \<Rightarrow> (Enqueued, m1\<lparr>queue := q'\<rparr>)
            | Put_pending \<Rightarrow> (Put_waits queued, m1)
            | Put_raised \<Rightarrow>
                (Rejected_in_handler,
                 m1\<lparr>rejected_requests := rejected_requests m1 @ [reject queued ''queue_full'']\<rparr>)))"

text \<open>Where a worker sends the request it took from the queue.\<close>

datatype dispatch = Timed_out | No_nodes | To_node StorageNode

text \<open>\<open>_single_request_processor\<close> from the return of \<open>queue.get()\<close>, and
  \<open>_process_request\<close> up to its first \<open>yield\<close>: the check of the time spent in the queue,
  then the choice of a node.\<close>

definition single_request_processor_got :: "real \<Rightarrow> Request \<Rightarrow> CloudSystemModel \<Rightarrow> LoadBalancer \<Rightarrow> dispatch \<times> CloudSystemModel \<times> LoadBalancer" where
  "single_request_processor_got now request m lb =
     (let waited_too_long =
            (case (max_wait_time m, queue_entry_time request) of
               (Some limit, Some entered) \<Rightarrow> now - entered > limit
             | _ \<Rightarrow> False)
      in if waited_too_long
         then (Timed_out,
               m\<lparr>rejected_requests := rejected_requests m @ [reject request ''wait_timeout'']\<rparr>, lb)
         else
           (case select_node lb (get_active_nodes m) of
              (None, lb') \<Rightarrow>
                (No_nodes,
                 m\<lparr>rejected_requests := rejected_requests m @ [reject request ''no_nodes'']\<rparr>, lb')
            | (Some node, lb') \<Rightarrow> (To_node node, m, lb')))"

text \<open>\<open>StorageNode.process_request\<close>: the two assignments before the slot is asked for, and
  the assignment after the service timeout.\<close>

definition process_request_start :: "StorageNode \<Rightarrow> real \<Rightarrow> Request \<Rightarrow> Request" where
  "process_request_start node now request =
     request\<lparr>node_id := Some (sn_node_id node), start_time := Some now\<rparr>"

definition process_request_finish :: "real \<Rightarrow> Request \<Rightarrow> Request" where
  "process_request_finish now request = request\<lparr>finish_time := Some now\<rparr>"

section \<open>The simulation as a transition system\<close>

text \<open>
  A request that a worker has taken from the queue and sent to a node is in flight: in the
  network delay until a time, waiting for a slot of the node, or in service until a time.
  \<open>fl_attached\<close> tells whether the node is still in the pool; a request stays on its node
  when the controller removes the node.
\<close>

datatype phase = Net_delay real | Slot_wait | In_service real

record flight =
  fl_request :: Request
  fl_node :: StorageNode
  fl_attached :: bool
  fl_phase :: phase

record World =
  w_now :: real
  w_model :: CloudSystemModel
  w_balancer :: LoadBalancer
  w_scaler :: AutoScaler
  w_pending_put :: "Request option"
  w_flights :: "flight list"

text \<open>The events at which a process resumes. \<open>Arrive t service\<close>: the generator's timeout
  fires at \<open>t\<close> and \<open>service\<close> is drawn. \<open>Put_granted\<close>: a pending put goes through.
  \<open>Worker_get u\<close>: a worker's \<open>get\<close> returns the head of the queue, and \<open>u\<close> is drawn for
  the network delay. \<open>Net_done i\<close>, \<open>Slot_granted i\<close>, \<open>Service_done i\<close>: the network
  delay of the \<open>i\<close>-th request in flight ends, it gets its slot, its service ends.
  \<open>Control_pass t\<close> and \<open>Sample t\<close>: the timeouts of \<open>control_loop\<close> and of
  \<open>metrics_collector_loop\<close> fire at \<open>t\<close>. \<open>Stop\<close>: the driver clears \<open>is_running\<close>.\<close>

datatype event =
    Arrive real real
  | Put_granted
  | Worker_get real
  | Net_done nat
  | Slot_granted nat
  | Service_done nat
  | Control_pass real
  | Sample real
  | Stop

text \<open>A step has no result when the event cannot happen in the state (\<open>Not_enabled\<close>) or
  when the code raises (\<open>Raised\<close>), which ends the run.\<close>

datatype sim_error = Not_enabled | Raised py_error

definition remove_at :: "nat \<Rightarrow> 'a list \<Rightarrow> 'a list" where
  "remove_at i xs = take i xs @ drop (Suc i) xs"

text \<open>Taking and giving back a slot of a node of the pool (the list \<open>users\<close> of its
  resource). The id of a node of the pool is its index.\<close>

definition pool_index :: "StorageNode \<Rightarrow> nat" where
  "pool_index node = nat (sn_node_id node)"

definition acquire_slot :: "nat \<Rightarrow> int \<Rightarrow> CloudSystemModel \<Rightarrow> CloudSystemModel" where
  "acquire_slot k rid m =
     m\<lparr>nodes := (nodes m)[k := (nodes m ! k)\<lparr>users := users (nodes m ! k) @ [rid]\<rparr>]\<rparr>"

definition release_slot :: "nat \<Rightarrow> int \<Rightarrow> CloudSystemModel \<Rightarrow> CloudSystemModel" where
  "release_slot k rid m =
     (if k < length (nodes m)
      then m\<lparr>nodes := (nodes m)[k := (nodes m ! k)\<lparr>users := remove1 rid (users (nodes m ! k))\<rparr>]\<rparr>
      else m)"

text \<open>After the controller has removed the last node of the pool, the requests on it are
  on a node outside the pool.\<close>

definition detach :: "int \<Rightarrow> flight list \<Rightarrow> flight list" where
  "detach nid fs =
     map (\<lambda>f. if fl_attached f \<and> sn_node_id (fl_node f) = nid then f\<lparr>fl_attached := False\<rparr> else f) fs"

fun step :: "event \<Rightarrow> World \<Rightarrow> sim_error + World" where
  "step (Arrive t service) w =
     (if t < w_now w \<or> w_pending_put w \<noteq> None \<or>
         \<not> uniform_sample (service_time_min (w_model w)) (service_time_max (w_model w)) service
      then Inl Not_enabled
      else if \<not> is_running (w_model w) then Inr (w\<lparr>w_now := t\<rparr>)
      else
        (case request_generator_arrival simpy_put t service (w_model w) of
           (Put_waits r, m') \<Rightarrow> Inr (w\<lparr>w_now := t, w_model := m', w_pending_put := Some r\<rparr>)
         | (outcome, m') \<Rightarrow> Inr (w\<lparr>w_now := t, w_model := m'\<rparr>)))"
| "step Put_granted w =
     (case w_pending_put w of
        None \<Rightarrow> Inl Not_enabled
      | Some r \<Rightarrow>
          (case simpy_put (queue (w_model w)) r of
             Put_stored q' \<Rightarrow> Inr (w\<lparr>w_model := (w_model w)\<lparr>queue := q'\<rparr>, w_pending_put := None\<rparr>)
           | other \<Rightarrow> Inl Not_enabled))"
| "step (Worker_get u) w =
     (case items (queue (w_model w)) of
        [] \<Rightarrow> Inl Not_enabled
      | request # rest \<Rightarrow>
          if net_delay_max (w_model w) > net_delay_min (w_model w) \<and>
             \<not> uniform_sample (net_delay_min (w_model w)) (net_delay_max (w_model w)) u
          then Inl Not_enabled
          else
            (let m1 = (w_model w)\<lparr>queue := (queue (w_model w))\<lparr>items := rest\<rparr>\<rparr> in
             case single_request_processor_got (w_now w) request m1 (w_balancer w) of
               (To_node node, m', lb') \<Rightarrow>
                 (case timeout (w_now w) (generate_network_delay m' u) of
                    Inl e \<Rightarrow> Inl (Raised e)
                  | Inr due \<Rightarrow>
                      Inr (w\<lparr>w_model := m', w_balancer := lb',
                             w_flights := w_flights w @
                               [\<lparr>fl_request = request, fl_node = node, fl_attached = True,
                                 fl_phase = Net_delay due\<rparr>]\<rparr>))
             | (other, m', lb') \<Rightarrow> Inr (w\<lparr>w_model := m', w_balancer := lb'\<rparr>)))"
| "step (Net_done i) w =
     (if i < length (w_flights w)
      then
        (let f = w_flights w ! i in
         case fl_phase f of
           Net_delay due \<Rightarrow>
             if due < w_now w then Inl Not_enabled
             else Inr (w\<lparr>w_now := due,
                         w_flights := (w_flights w)
                           [i := f\<lparr>fl_request := process_request_start (fl_node f) due (fl_request f),
                                  fl_phase := Slot_wait\<rparr>]\<rparr>)
         | other \<Rightarrow> Inl Not_enabled)
      else Inl Not_enabled)"
| "step (Slot_granted i) w =
     (if i < length (w_flights w)
      then
        (let f = w_flights w ! i; k = pool_index (fl_node f); m = w_model w in
         case fl_phase f of
           Slot_wait \<Rightarrow>
             if fl_attached f \<and>
                \<not> (k < length (nodes m) \<and> int (length (users (nodes m ! k))) < capacity (nodes m ! k))
             then Inl Not_enabled
             else
               (case service_time (fl_request f) of
                  None \<Rightarrow> Inl (Raised TypeError)
                | Some service \<Rightarrow>
                    (case timeout (w_now w) service of
                       Inl e \<Rightarrow> Inl (Raised e)
                     | Inr due \<Rightarrow>
                         Inr (w\<lparr>w_model :=
                                  (if fl_attached f
                                   then acquire_slot k (request_id (fl_request f)) m else m),
                                w_flights := (w_flights w)[i := f\<lparr>fl_phase := In_service due\<rparr>]\<rparr>)))
         | other \<Rightarrow> Inl Not_enabled)
      else Inl Not_enabled)"
| "step (Service_done i) w =
     (if i < length (w_flights w)
      then
        (let f = w_flights w ! i; k = pool_index (fl_node f) in
         case fl_phase f of
           In_service due \<Rightarrow>
             if due < w_now w then Inl Not_enabled
             else
               (let finished = process_request_finish due (fl_request f);
                    m1 = (if fl_attached f
                          then release_slot k (request_id (fl_request f)) (w_model w)
                          else w_model w)
                in Inr (w\<lparr>w_now := due,
                          w_model := m1\<lparr>processed_requests := processed_requests m1 @ [finished]\<rparr>,
                          w_flights := remove_at i (w_flights w)\<rparr>))
         | other \<Rightarrow> Inl Not_enabled)
      else Inl Not_enabled)"
| "step (Control_pass t) w =
     (if t < w_now w then Inl Not_enabled
      else
        (case control_loop_pass t (w_model w) (w_scaler w) of
           Inl e \<Rightarrow> Inl (Raised e)
         | Inr (a, m', s') \<Rightarrow>
             Inr (w\<lparr>w_now := t, w_model := m', w_scaler := s',
                    w_flights :=
                      (if length (nodes m') < length (nodes (w_model w))
                       then detach (int (length (nodes m'))) (w_flights w)
                       else w_flights w)\<rparr>)))"
| "step (Sample t) w =
     (if t < w_now w then Inl Not_enabled
      else Inr (w\<lparr>w_now := t, w_scaler := metrics_collector_sample t (w_model w) (w_scaler w)\<rparr>))"
| "step Stop w =
     Inr (w\<lparr>w_model := (w_model w)\<lparr>is_running := False\<rparr>,
            w_scaler := (w_scaler w)\<lparr>as_is_running := False\<rparr>\<rparr>)"

fun run :: "event list \<Rightarrow> World \<Rightarrow> sim_error + World" where
  "run [] w = Inr w"
| "run (e # es) w = (case step e w of Inl err \<Rightarrow> Inl err | Inr w' \<Rightarrow> run es w')"

text \<open>The state in which the driver starts the processes: the clock at 0, a model and a
  controller as their constructors leave them, both set running, a fresh balancer.\<close>

definition start_world :: "CloudSystemModel \<Rightarrow> AutoScaler \<Rightarrow> World" where
  "start_world m s =
     \<lparr>w_now = 0, w_model = m\<lparr>is_running := True\<rparr>, w_balancer = new_LoadBalancer,
      w_scaler = s\<lparr>as_is_running := True\<rparr>, w_pending_put = None, w_flights = []\<rparr>"

text \<open>Every request the run holds, wherever it is: in the queue, in a pending put, in
  flight, processed or rejected.\<close>

definition waiting_requests :: "World \<Rightarrow> Request list" where
  "waiting_requests w =
     items (queue (w_model w)) @
     (case w_pending_put w of None \<Rightarrow> [] | Some r \<Rightarrow> [r]) @
     map fl_request (w_flights w)"

definition all_requests :: "World \<Rightarrow> Request list" where
  "all_requests w =
     waiting_requests w @ processed_requests (w_model w) @ rejected_requests (w_model w)"

subsection \<open>What holds of the requests in every state of a run\<close>

text \<open>The ids of the requests the run holds are the numbers from 0 up to
  \<open>next_request_id\<close>, each once.\<close>

definition ids_ok :: "World \<Rightarrow> bool" where
  "ids_ok w =
     (0 \<le> next_request_id (w_model w) \<and>
      mset (map request_id (all_requests w)) = mset [0..next_request_id (w_model w) - 1])"

text \<open>The service time of a request was drawn between the two bounds.\<close>

definition sampled :: "real \<Rightarrow> real \<Rightarrow> Request \<Rightarrow> bool" where
  "sampled low high r =
     (case service_time r of None \<Rightarrow> False | Some service \<Rightarrow> uniform_sample low high service)"

text \<open>A request that has entered the queue and has neither finished nor been rejected.\<close>

definition pending_shape :: "Request \<Rightarrow> bool" where
  "pending_shape r =
     (\<not> rejected r \<and> rejected_reason r = None \<and>
      queue_entry_time r = Some (arrival_time r) \<and> 0 \<le> arrival_time r \<and>
      finish_time r = None)"

definition waiting_shape :: "real \<Rightarrow> Request \<Rightarrow> bool" where
  "waiting_shape now r = (pending_shape r \<and> arrival_time r \<le> now \<and> start_time r = None)"

definition flight_shape :: "real \<Rightarrow> flight \<Rightarrow> bool" where
  "flight_shape now f =
     (pending_shape (fl_request f) \<and>
      (case fl_phase f of
         Net_delay due \<Rightarrow>
           start_time (fl_request f) = None \<and> arrival_time (fl_request f) \<le> now \<and>
           arrival_time (fl_request f) \<le> due
       | Slot_wait \<Rightarrow>
           (case start_time (fl_request f) of
              None \<Rightarrow> False
            | Some started \<Rightarrow> arrival_time (fl_request f) \<le> started \<and> started \<le> now)
       | In_service due \<Rightarrow>
           (case (start_time (fl_request f), service_time (fl_request f)) of
              (Some started, Some service) \<Rightarrow>
                arrival_time (fl_request f) \<le> started \<and> 0 \<le> service \<and> started + service \<le> due
            | other \<Rightarrow> False)))"

definition processed_shape :: "Request \<Rightarrow> bool" where
  "processed_shape r =
     (\<not> rejected r \<and> rejected_reason r = None \<and>
      (case (queue_entry_time r, start_time r, finish_time r, service_time r) of
         (Some entered, Some started, Some finished, Some service) \<Rightarrow>
           0 \<le> arrival_time r \<and> entered = arrival_time r \<and> entered \<le> started \<and>
           0 \<le> service \<and> started + service \<le> finished
       | other \<Rightarrow> False))"

definition rejected_shape :: "Request \<Rightarrow> bool" where
  "rejected_shape r =
     (rejected r \<and>
      (rejected_reason r = Some ''queue_full'' \<or> rejected_reason r = Some ''wait_timeout'' \<or>
       rejected_reason r = Some ''no_nodes'') \<and>
      (rejected_reason r = Some ''queue_full'' \<longrightarrow> queue_entry_time r = None) \<and>
      start_time r = None \<and> finish_time r = None)"

definition shapes_ok :: "World \<Rightarrow> bool" where
  "shapes_ok w =
     (let low = service_time_min (w_model w); high = service_time_max (w_model w) in
      0 \<le> w_now w \<and>
      (\<forall>r\<in>set (items (queue (w_model w))). waiting_shape (w_now w) r \<and> sampled low high r) \<and>
      (\<forall>r\<in>set_option (w_pending_put w). waiting_shape (w_now w) r \<and> sampled low high r) \<and>
      (\<forall>f\<in>set (w_flights w). flight_shape (w_now w) f \<and> sampled low high (fl_request f)) \<and>
      (\<forall>r\<in>set (processed_requests (w_model w)). processed_shape r \<and> sampled low high r) \<and>
      (\<forall>r\<in>set (rejected_requests (w_model w)). rejected_shape r))"

text \<open>The queue has the capacity the constructor gave it, and no put is pending.\<close>

definition capacity_ok :: "World \<Rightarrow> bool" where
  "capacity_ok w =
     (store_capacity (queue (w_model w)) = queue_capacity_of (max_requests_in_flight (w_model w)) \<and>
      w_pending_put w = None)"

text \<open>A model as its constructor leaves it: no request yet.\<close>

definition fresh :: "CloudSystemModel \<Rightarrow> bool" where
  "fresh m =
     (items (queue m) = [] \<and> processed_requests m = [] \<and> rejected_requests m = [] \<and>
      next_request_id m = 0 \<and>
      store_capacity (queue m) = queue_capacity_of (max_requests_in_flight m))"

section \<open>Metrics collector (model/metrics.py)\<close>

text \<open>class MetricsCollector. The four series are \<open>deque(maxlen=max_history_size)\<close>: an
  append to a full deque drops the oldest entry. \<open>mc_processed_requests\<close> and
  \<open>mc_rejected_requests\<close> are the collector's own copies of the two request lists.\<close>

record MetricsCollector =
  max_history_size :: nat
  time_series :: "real list"
  queue_length_series :: "int list"
  nodes_count_series :: "int list"
  avg_response_time_series :: "real list"
  total_requests :: int
  mc_processed_requests :: "Request list"
  mc_rejected_requests :: "Request list"
  sla_threshold :: "real option"

definition MetricsCollector_init :: "nat \<Rightarrow> MetricsCollector" where
  "MetricsCollector_init n =
     \<lparr>max_history_size = n, time_series = [], queue_length_series = [],
      nodes_count_series = [], avg_response_time_series = [], total_requests = 0,
      mc_processed_requests = [], mc_rejected_requests = [], sla_threshold = None\<rparr>"

definition deque_append :: "nat \<Rightarrow> 'a list \<Rightarrow> 'a \<Rightarrow> 'a list" where
  "deque_append maxlen xs x = (let ys = xs @ [x] in drop (length ys - maxlen) ys)"

definition record_snapshot :: "MetricsCollector \<Rightarrow> real \<Rightarrow> int \<Rightarrow> int \<Rightarrow> real \<Rightarrow> MetricsCollector" where
  "record_snapshot mc sim_time queue_length nodes_count avg_response_time =
     mc\<lparr>time_series := deque_append (max_history_size mc) (time_series mc) sim_time,
        queue_length_series := deque_append (max_history_size mc) (queue_length_series mc) queue_length,
        nodes_count_series := deque_append (max_history_size mc) (nodes_count_series mc) nodes_count,
        avg_response_time_series :=
          deque_append (max_history_size mc) (avg_response_time_series mc) avg_response_time\<rparr>"

definition update_requests :: "MetricsCollector \<Rightarrow> Request list \<Rightarrow> Request list \<Rightarrow> MetricsCollector" where
  "update_requests mc processed rejected_list =
     mc\<lparr>mc_processed_requests := processed, mc_rejected_requests := rejected_list,
        total_requests := int (length processed) + int (length rejected_list)\<rparr>"

text \<open>The loop of \<open>get_aggregated_metrics\<close> over \<open>i in range(len(time_series) - 1)\<close>:
  the queue length at sample \<open>i\<close> times the time to sample \<open>i + 1\<close>. Reading
  \<open>queue_length_series[i]\<close> past the end of a shorter series raises IndexError.\<close>

fun series_area_loop :: "real list \<Rightarrow> int list \<Rightarrow> real \<times> real \<Rightarrow> py_error + (real \<times> real)" where
  "series_area_loop (t1 # t2 # ts) (queue_len # qs) (total_area, total_time) =
     (let dt = t2 - t1 in
      series_area_loop (t2 # ts) qs (total_area + real_of_int queue_len * dt, total_time + dt))"
| "series_area_loop (t1 # t2 # ts) [] acc = Inl IndexError"
| "series_area_loop ts qs acc = Inr acc"

text \<open>The entry \<open>avg_queue_length\<close> of the dictionary that \<open>get_aggregated_metrics\<close>
  returns (its initial value is 0.0).\<close>

definition avg_queue_length_of :: "real list \<Rightarrow> int list \<Rightarrow> py_error + real" where
  "avg_queue_length_of ts qs =
     (if length ts > 1 \<and> length qs > 1
      then
        (case series_area_loop ts qs (0, 0) of
           Inl e \<Rightarrow> Inl e
         | Inr (total_area, total_time) \<Rightarrow>
             if total_time > 0 then Inr (total_area / total_time)
             else Inr (if qs \<noteq> [] then real_of_int (last qs) else 0))
      else if qs \<noteq> [] then Inr (real_of_int (sum_list qs) / real (length qs))
      else Inr 0)"

definition get_aggregated_avg_queue_length :: "MetricsCollector \<Rightarrow> py_error + real" where
  "get_aggregated_avg_queue_length mc =
     avg_queue_length_of (time_series mc) (queue_length_series mc)"

text \<open>Recording a list of (time, queue length) samples, one \<open>record_snapshot\<close> each (the
  node count and response time recorded with them play no part in the queue average).\<close>

fun record_samples :: "MetricsCollector \<Rightarrow> (real \<times> int) list \<Rightarrow> MetricsCollector" where
  "record_samples mc [] = mc"
| "record_samples mc ((t, q) # rest) = record_samples (record_snapshot mc t q 0 0) rest"

subsection \<open>The two quadrature rules, as the specification names them\<close>

text \<open>The trapezoidal integral of a series of samples, the integral that holds each sample
  until the next one (left endpoint), and the time between the first and the last sample.\<close>

fun trapezoidal_integral :: "(real \<times> int) list \<Rightarrow> real" where
  "trapezoidal_integral ((t1, q1) # (t2, q2) # rest) =
     (real_of_int q1 + real_of_int q2) / 2 * (t2 - t1) + trapezoidal_integral ((t2, q2) # rest)"
| "trapezoidal_integral [x] = 0"
| "trapezoidal_integral [] = 0"

fun left_integral :: "(real \<times> int) list \<Rightarrow> real" where
  "left_integral ((t1, q1) # (t2, q2) # rest) =
     real_of_int q1 * (t2 - t1) + left_integral ((t2, q2) # rest)"
| "left_integral [x] = 0"
| "left_integral [] = 0"

definition elapsed :: "(real \<times> int) list \<Rightarrow> real" where
  "elapsed samples = fst (last samples) - fst (hd samples)"

section \<open>Concrete inputs\<close>

text \<open>A pool of three nodes of capacity 1 with a cap of 100 requests in flight and the
  empty queue of capacity 1000 that the constructor builds for that cap, a controller with
  bounds 1 and 4, thresholds 2 and 10, interval 5 and cooldown 10, as its constructor
  leaves it, and the metrics of a quiet and of a loaded interval.\<close>

definition demo_model :: CloudSystemModel where
  "demo_model =
     \<lparr>lambda_rate = 4, service_time_min = 1/2, service_time_max = 2,
      net_delay_min = 0, net_delay_max = 0, max_requests_in_flight = Some 100,
      node_capacity = 1, max_wait_time = None,
      queue = \<lparr>store_capacity = Some 1000, items = []\<rparr>,
      nodes = [new_StorageNode 0 1, new_StorageNode 1 1, new_StorageNode 2 1],
      next_request_id = 0, processed_requests = [], rejected_requests = [],
      is_running = True, is_paused = False\<rparr>"

definition demo_scaler :: AutoScaler where
  "demo_scaler =
     \<lparr>min_nodes = 1, max_nodes = 4, low_threshold = 2, high_threshold = 10,
      control_interval = 5, scale_cooldown = 10,
      last_scale_time = 0, consecutive_low_intervals = 0, required_consecutive_low = 2,
      metrics_history = [], interval_start_time = 0, interval_queue_lengths = [],
      interval_response_times = [], as_is_running = True, as_is_paused = False\<rparr>"

definition low_metrics :: metrics where
  "low_metrics = [''queue_length'' \<mapsto> 0, ''avg_response_time'' \<mapsto> 1, ''active_nodes'' \<mapsto> 3]"

definition high_metrics :: metrics where
  "high_metrics = [''queue_length'' \<mapsto> 12, ''avg_response_time'' \<mapsto> 3, ''active_nodes'' \<mapsto> 3]"

text \<open>The same model with a cap of 2 requests in flight, and the queue of capacity 20 that
  the constructor builds for that cap.\<close>

definition capped_model :: CloudSystemModel where
  "capped_model =
     demo_model\<lparr>max_requests_in_flight := Some 2,
       queue := \<lparr>store_capacity = Some 20, items = []\<rparr>\<rparr>"

text \<open>Two runs from the capped model and the controller, with one request each. In the
  first the request arrives at time 0.9 with service time 0.5, a worker takes it from the
  queue, the network delay (0) ends and the node grants a slot: the request is in service
  until 1.4. In the second the request arrives at time 1 and its service ends too.\<close>

definition in_service_run :: "sim_error + World" where
  "in_service_run =
     run [Arrive (9/10) (1/2), Worker_get 0, Net_done 0, Slot_granted 0]
       (start_world capped_model demo_scaler)"

definition completed_run :: "sim_error + World" where
  "completed_run =
     run [Arrive 1 (1/2), Worker_get 0, Net_done 0, Slot_granted 0, Service_done 0]
       (start_world capped_model demo_scaler)"

section \<open>Properties of the load balancer\<close>

text \<open>
  C6. For every node list \<open>L\<close> and cursor \<open>c\<close>: when no node of \<open>L\<close> is active,
  \<open>select_node\<close> returns None and leaves the cursor alone; otherwise, with \<open>n\<close> the number
  of active nodes, it returns the active node at index \<open>c mod n\<close> (an index within the
  active list) and the cursor becomes \<open>(c + 1) mod n\<close>. The balancer is nothing but its
  cursor: the value after the call is the record holding that one field.
\<close>

theorem select_node_round_robin:
  "(filter is_active L = [] \<longrightarrow> select_node \<lparr>current_index = c\<rparr> L = (None, \<lparr>current_index = c\<rparr>)) \<and>
   (filter is_active L \<noteq> [] \<longrightarrow>
      0 \<le> c mod int (length (filter is_active L)) \<and>
      nat (c mod int (length (filter is_active L))) < length (filter is_active L) \<and>
      select_node \<lparr>current_index = c\<rparr> L =
        (Some (filter is_active L ! nat (c mod int (length (filter is_active L)))),
         \<lparr>current_index = (c + 1) mod int (length (filter is_active L))\<rparr>))"
proof (cases "filter is_active L = []")
  case True
  then show ?thesis by (simp add: select_node_def Let_def)
next
  case False
  then have pos: "0 < int (length (filter is_active L))" by simp
  have nonempty: "L \<noteq> []" using False by auto
  have lo: "0 \<le> c mod int (length (filter is_active L))"
    using pos by (rule pos_mod_sign)
  have "c mod int (length (filter is_active L)) < int (length (filter is_active L))"
    using pos by (rule pos_mod_bound)
  with lo have hi: "nat (c mod int (length (filter is_active L))) < length (filter is_active L)"
    by linarith
  show ?thesis using False nonempty lo hi by (simp add: select_node_def Let_def)
qed

theorem select_node_round_robin_witness:
  "select_node \<lparr>current_index = 5\<rparr>
     [new_StorageNode 0 1, (new_StorageNode 1 1)\<lparr>is_active := False\<rparr>, new_StorageNode 2 1] =
     (Some (new_StorageNode 2 1), \<lparr>current_index = 0\<rparr>)"
  using select_node_round_robin [of "[new_StorageNode 0 1, (new_StorageNode 1 1)\<lparr>is_active := False\<rparr>, new_StorageNode 2 1]" 5]
  by (simp add: new_StorageNode_def)

section \<open>Properties of the controller\<close>

lemma filter_butlast_bounds:
  "length (filter P (butlast xs)) \<le> length (filter P xs) \<and>
   length (filter P xs) \<le> Suc (length (filter P (butlast xs)))"
  by (induction xs) auto

lemma add_node_effect:
  assumes "add_node m = Inr (node, m')"
  shows "nodes m' = nodes m @ [node]" and "is_active node" and "active_count m' = active_count m + 1"
    and "node_capacity m' = node_capacity m"
  using assms
  by (auto simp: add_node_def StorageNode_init_def new_StorageNode_def active_count_def
      get_active_nodes_def split: if_splits)

lemma remove_node_effect:
  "nodes (snd (remove_node m)) = butlast (nodes m)"
  "active_count (snd (remove_node m)) \<le> active_count m"
  "active_count m - 1 \<le> active_count (snd (remove_node m))"
  "node_capacity (snd (remove_node m)) = node_capacity m"
  using filter_butlast_bounds [of is_active "nodes m"]
  by (auto simp: remove_node_def active_count_def get_active_nodes_def)

lemma scale_up_effect:
  assumes "scale_up now m s = Inr (ok, m', s')"
  shows "ok \<longleftrightarrow> active_count m < max_nodes s"
    and "ok \<Longrightarrow> active_count m' = active_count m + 1"
    and "ok \<Longrightarrow> length (nodes m') = length (nodes m) + 1"
    and "ok \<Longrightarrow> s' = s\<lparr>last_scale_time := now, consecutive_low_intervals := 0\<rparr>"
    and "\<not> ok \<Longrightarrow> m' = m \<and> s' = s"
  using assms
  by (auto simp: scale_up_def Let_def active_count_def [symmetric] split: if_splits sum.splits
      dest: add_node_effect)

lemma scale_down_effect:
  assumes "scale_down now m s = (ok, m', s')"
  shows "ok \<longleftrightarrow> active_count m > min_nodes s"
    and "ok \<Longrightarrow> active_count m - 1 \<le> active_count m' \<and> active_count m' \<le> active_count m"
    and "ok \<Longrightarrow> nodes m' = butlast (nodes m)"
    and "ok \<Longrightarrow> s' = s\<lparr>last_scale_time := now, consecutive_low_intervals := 0\<rparr>"
    and "\<not> ok \<Longrightarrow> m' = m \<and> s' = s"
  using assms remove_node_effect [of m]
  by (auto simp: scale_down_def Let_def active_count_def [symmetric] split: if_splits)

lemma should_scale_up_iff:
  "should_scale_up now m s metrics \<longleftrightarrow>
     (dict_get metrics ''queue_length'' 0 > high_threshold s \<or>
      dict_get metrics ''avg_response_time'' 0 > high_threshold s) \<and>
     active_count m < max_nodes s \<and> now - last_scale_time s \<ge> scale_cooldown s"
  by (simp add: should_scale_up_def Let_def active_count_def)

lemma should_scale_down_cases:
  "should_scale_down now m s metrics =
     (if low_interval_qualifies now m s metrics
      then (consecutive_low_intervals s + 1 \<ge> required_consecutive_low s,
            s\<lparr>consecutive_low_intervals := consecutive_low_intervals s + 1\<rparr>)
      else (False, s\<lparr>consecutive_low_intervals := 0\<rparr>))"
  by (simp add: should_scale_down_def low_interval_qualifies_def Let_def)

lemma qualifies_iff:
  "low_interval_qualifies now m s metrics \<longleftrightarrow>
     (dict_get metrics ''queue_length'' 0 < low_threshold s \<and>
      dict_get metrics ''avg_response_time'' 0 < low_threshold s) \<and>
     active_count m > min_nodes s \<and> now - last_scale_time s \<ge> scale_cooldown s"
  by (simp add: low_interval_qualifies_def active_count_def)

text \<open>The three ways a decision can end.\<close>

lemma control_decision_cases:
  assumes "control_decision now metrics m s = Inr (a, m', s')"
  obtains
    (up) "should_scale_up now m s metrics" "a = Scale_up"
      "active_count m < max_nodes s" "active_count m' = active_count m + 1"
      "length (nodes m') = length (nodes m) + 1"
      "s' = s\<lparr>last_scale_time := now, consecutive_low_intervals := 0\<rparr>"
  | (down) "\<not> should_scale_up now m s metrics" "low_interval_qualifies now m s metrics"
      "consecutive_low_intervals s + 1 \<ge> required_consecutive_low s" "a = Scale_down"
      "active_count m > min_nodes s"
      "active_count m - 1 \<le> active_count m'" "active_count m' \<le> active_count m"
      "nodes m' = butlast (nodes m)"
      "s' = s\<lparr>last_scale_time := now, consecutive_low_intervals := 0\<rparr>"
  | (wait) "\<not> should_scale_up now m s metrics" "low_interval_qualifies now m s metrics"
      "\<not> consecutive_low_intervals s + 1 \<ge> required_consecutive_low s" "a = No_scaling"
      "m' = m" "s' = s\<lparr>consecutive_low_intervals := consecutive_low_intervals s + 1\<rparr>"
  | (none) "\<not> should_scale_up now m s metrics" "\<not> low_interval_qualifies now m s metrics"
      "a = No_scaling" "m' = m" "s' = s\<lparr>consecutive_low_intervals := 0\<rparr>"
proof (cases "should_scale_up now m s metrics")
  case True
  with assms obtain ok where su: "scale_up now m s = Inr (ok, m', s')"
    and a: "a = (if ok then Scale_up else No_scaling)"
    by (auto simp: control_decision_def split: sum.splits)
  from True have "active_count m < max_nodes s" by (simp add: should_scale_up_iff)
  with scale_up_effect(1) [OF su] have ok by simp
  with su a True show ?thesis
    using up scale_up_effect [OF su] by simp
next
  case False
  show ?thesis
  proof (cases "low_interval_qualifies now m s metrics")
    case q: True
    show ?thesis
    proof (cases "consecutive_low_intervals s + 1 \<ge> required_consecutive_low s")
      case True
      let ?s1 = "s\<lparr>consecutive_low_intervals := consecutive_low_intervals s + 1\<rparr>"
      have sdv: "should_scale_down now m s metrics = (True, ?s1)"
        using q True by (simp add: should_scale_down_cases)
      obtain ok m2 s2 where sd0: "scale_down now m ?s1 = (ok, m2, s2)"
        by (cases "scale_down now m ?s1") auto
      from assms False have "Inr (if ok then Scale_down else No_scaling, m2, s2) = Inr (a, m', s')"
        unfolding control_decision_def by (simp add: sdv sd0)
      then have a: "a = (if ok then Scale_down else No_scaling)" and "m2 = m'" and "s2 = s'"
        by simp_all
      with sd0 have sd: "scale_down now m ?s1 = (ok, m', s')" by simp
      from q have "active_count m > min_nodes ?s1" by (simp add: qualifies_iff)
      with scale_down_effect(1) [OF sd] have ok by simp
      with sd a False q True show ?thesis
        using down scale_down_effect [OF sd] by (simp add: qualifies_iff)
    next
      case nt: False
      have sdv: "should_scale_down now m s metrics =
          (False, s\<lparr>consecutive_low_intervals := consecutive_low_intervals s + 1\<rparr>)"
        using q nt by (simp add: should_scale_down_cases)
      from assms False have "a = No_scaling \<and> m' = m \<and>
          s' = s\<lparr>consecutive_low_intervals := consecutive_low_intervals s + 1\<rparr>"
        unfolding control_decision_def by (simp add: sdv)
      with False q nt show ?thesis using wait by blast
    qed
  next
    case nq: False
    have sdv: "should_scale_down now m s metrics = (False, s\<lparr>consecutive_low_intervals := 0\<rparr>)"
      using nq by (simp add: should_scale_down_cases)
    from assms False have "a = No_scaling \<and> m' = m \<and> s' = s\<lparr>consecutive_low_intervals := 0\<rparr>"
      unfolding control_decision_def by (simp add: sdv)
    with False nq show ?thesis using none by blast
  qed
qed


lemma control_decision_config:
  assumes "control_decision now metrics m s = Inr (a, m', s')"
  shows "min_nodes s' = min_nodes s \<and> max_nodes s' = max_nodes s \<and>
         scale_cooldown s' = scale_cooldown s \<and>
         required_consecutive_low s' = required_consecutive_low s"
  using assms by (cases rule: control_decision_cases) simp_all

lemma control_decision_bounds:
  assumes "control_decision now metrics m s = Inr (a, m', s')"
    and "min_nodes s \<le> active_count m" and "active_count m \<le> max_nodes s"
  shows "min_nodes s \<le> active_count m' \<and> active_count m' \<le> max_nodes s"
  using assms(1)
proof (cases rule: control_decision_cases)
  case up
  with assms show ?thesis by simp
next
  case down
  with assms show ?thesis by simp
next
  case wait
  with assms show ?thesis by simp
next
  case none
  with assms show ?thesis by simp
qed

lemma control_decision_change:
  assumes "control_decision now metrics m s = Inr (a, m', s')"
  shows "\<bar>active_count m' - active_count m\<bar> \<le> 1 \<and>
         \<bar>int (length (nodes m')) - int (length (nodes m))\<bar> \<le> 1 \<and>
         (active_count m < active_count m' \<longrightarrow> a = Scale_up \<and> active_count m < max_nodes s) \<and>
         (active_count m' < active_count m \<longrightarrow> a = Scale_down \<and> min_nodes s < active_count m) \<and>
         (a = Scale_up \<longrightarrow> active_count m < max_nodes s \<and> active_count m' = active_count m + 1) \<and>
         (a = Scale_down \<longrightarrow> min_nodes s < active_count m) \<and>
         (a = No_scaling \<longrightarrow> m' = m)"
  using assms
proof (cases rule: control_decision_cases)
  case up
  then show ?thesis by simp
next
  case down
  then show ?thesis by simp
next
  case wait
  then show ?thesis by simp
next
  case none
  then show ?thesis by simp
qed

lemma run_controller_bounds:
  "run_controller ticks m s = Inr (acts, m', s') \<Longrightarrow>
   min_nodes s \<le> active_count m \<Longrightarrow> active_count m \<le> max_nodes s \<Longrightarrow>
   min_nodes s' = min_nodes s \<and> max_nodes s' = max_nodes s \<and>
   min_nodes s \<le> active_count m' \<and> active_count m' \<le> max_nodes s"
proof (induction ticks arbitrary: m s acts)
  case Nil
  then show ?case by simp
next
  case (Cons tick ticks)
  obtain now metrics where tick: "tick = (now, metrics)" by (cases tick)
  from Cons.prems(1) tick obtain a m1 s1 acts1 where
    step: "control_decision now metrics m s = Inr (a, m1, s1)" and
    rest: "run_controller ticks m1 s1 = Inr (acts1, m', s')"
    by (auto split: sum.splits)
  from control_decision_config [OF step] control_decision_bounds [OF step Cons.prems(2,3)]
  have "min_nodes s1 \<le> active_count m1" "active_count m1 \<le> max_nodes s1"
    and cfg: "min_nodes s1 = min_nodes s" "max_nodes s1 = max_nodes s" by simp_all
  from Cons.IH [OF rest this(1,2)] cfg show ?case by simp
qed

text \<open>
  C5. When the number of active nodes lies between \<open>min_nodes\<close> and \<open>max_nodes\<close>, it
  still does after a decision of the controller, and after any run of decisions. A decision
  changes the number of active nodes and the length of the pool by at most one; the number
  grows only through a scale-up, taken when it was strictly below \<open>max_nodes\<close>, and
  shrinks only through a scale-down, taken when it was strictly above \<open>min_nodes\<close>.
  \<open>scale_up\<close> and \<open>scale_down\<close> called on their own act under the same tests.
\<close>

theorem pool_stays_within_bounds:
  assumes "min_nodes s \<le> active_count m" and "active_count m \<le> max_nodes s"
  shows
    "(control_decision now metrics m s = Inr (a, m', s') \<longrightarrow>
        min_nodes s' = min_nodes s \<and> max_nodes s' = max_nodes s \<and>
        min_nodes s \<le> active_count m' \<and> active_count m' \<le> max_nodes s \<and>
        \<bar>active_count m' - active_count m\<bar> \<le> 1 \<and>
        \<bar>int (length (nodes m')) - int (length (nodes m))\<bar> \<le> 1 \<and>
        (active_count m < active_count m' \<longrightarrow> a = Scale_up \<and> active_count m < max_nodes s) \<and>
        (active_count m' < active_count m \<longrightarrow> a = Scale_down \<and> min_nodes s < active_count m)) \<and>
     (scale_up now m s = Inr (ok1, m1, s1) \<longrightarrow>
        (ok1 \<longleftrightarrow> active_count m < max_nodes s) \<and>
        active_count m1 = (if ok1 then active_count m + 1 else active_count m)) \<and>
     (scale_down now m s = (ok2, m2, s2) \<longrightarrow>
        (ok2 \<longleftrightarrow> min_nodes s < active_count m) \<and>
        active_count m - 1 \<le> active_count m2 \<and> active_count m2 \<le> active_count m \<and>
        (\<not> ok2 \<longrightarrow> m2 = m)) \<and>
     (run_controller ticks m s = Inr (acts, m3, s3) \<longrightarrow>
        min_nodes s \<le> active_count m3 \<and> active_count m3 \<le> max_nodes s)"
proof -
  have A: "control_decision now metrics m s = Inr (a, m', s') \<longrightarrow>
        min_nodes s' = min_nodes s \<and> max_nodes s' = max_nodes s \<and>
        min_nodes s \<le> active_count m' \<and> active_count m' \<le> max_nodes s \<and>
        \<bar>active_count m' - active_count m\<bar> \<le> 1 \<and>
        \<bar>int (length (nodes m')) - int (length (nodes m))\<bar> \<le> 1 \<and>
        (active_count m < active_count m' \<longrightarrow> a = Scale_up \<and> active_count m < max_nodes s) \<and>
        (active_count m' < active_count m \<longrightarrow> a = Scale_down \<and> min_nodes s < active_count m)"
  proof
    assume step: "control_decision now metrics m s = Inr (a, m', s')"
    note c1 = control_decision_config [OF step]
    note c2 = control_decision_bounds [OF step assms]
    note c3 = control_decision_change [OF step]
    from c1 c2 c3 show "min_nodes s' = min_nodes s \<and> max_nodes s' = max_nodes s \<and>
        min_nodes s \<le> active_count m' \<and> active_count m' \<le> max_nodes s \<and>
        \<bar>active_count m' - active_count m\<bar> \<le> 1 \<and>
        \<bar>int (length (nodes m')) - int (length (nodes m))\<bar> \<le> 1 \<and>
        (active_count m < active_count m' \<longrightarrow> a = Scale_up \<and> active_count m < max_nodes s) \<and>
        (active_count m' < active_count m \<longrightarrow> a = Scale_down \<and> min_nodes s < active_count m)"
      by blast
  qed
  have B: "scale_up now m s = Inr (ok1, m1, s1) \<longrightarrow>
        (ok1 \<longleftrightarrow> active_count m < max_nodes s) \<and>
        active_count m1 = (if ok1 then active_count m + 1 else active_count m)"
  proof
    assume su: "scale_up now m s = Inr (ok1, m1, s1)"
    show "(ok1 \<longleftrightarrow> active_count m < max_nodes s) \<and>
        active_count m1 = (if ok1 then active_count m + 1 else active_count m)"
      using scale_up_effect(1) [OF su] scale_up_effect(2) [OF su] scale_up_effect(5) [OF su]
      by (cases ok1) simp_all
  qed
  have C: "scale_down now m s = (ok2, m2, s2) \<longrightarrow>
        (ok2 \<longleftrightarrow> min_nodes s < active_count m) \<and>
        active_count m - 1 \<le> active_count m2 \<and> active_count m2 \<le> active_count m \<and>
        (\<not> ok2 \<longrightarrow> m2 = m)"
  proof
    assume sd: "scale_down now m s = (ok2, m2, s2)"
    show "(ok2 \<longleftrightarrow> min_nodes s < active_count m) \<and>
        active_count m - 1 \<le> active_count m2 \<and> active_count m2 \<le> active_count m \<and>
        (\<not> ok2 \<longrightarrow> m2 = m)"
      using scale_down_effect(1) [OF sd] scale_down_effect(2) [OF sd] scale_down_effect(5) [OF sd]
      by (cases ok2) simp_all
  qed
  have D: "run_controller ticks m s = Inr (acts, m3, s3) \<longrightarrow>
        min_nodes s \<le> active_count m3 \<and> active_count m3 \<le> max_nodes s"
    using run_controller_bounds [of ticks m s acts m3 s3] assms by simp
  from A B C D show ?thesis by (intro conjI)
qed

theorem pool_stays_within_bounds_witness:
  "min_nodes demo_scaler \<le> active_count demo_model \<and>
   active_count demo_model \<le> max_nodes demo_scaler \<and>
   (case control_decision 10 high_metrics demo_model demo_scaler of
      Inl e \<Rightarrow> False
    | Inr (a, m', s') \<Rightarrow>
        min_nodes demo_scaler \<le> active_count m' \<and> active_count m' \<le> max_nodes demo_scaler \<and>
        \<bar>active_count m' - active_count demo_model\<bar> \<le> 1)"
proof -
  have lo: "min_nodes demo_scaler \<le> active_count demo_model"
    by (simp add: demo_scaler_def demo_model_def active_count_def get_active_nodes_def
        new_StorageNode_def)
  have hi: "active_count demo_model \<le> max_nodes demo_scaler"
    by (simp add: demo_scaler_def demo_model_def active_count_def get_active_nodes_def
        new_StorageNode_def)
  have "\<exists>x. control_decision 10 high_metrics demo_model demo_scaler = Inr x"
    by (simp add: control_decision_def should_scale_up_def scale_up_def add_node_def
        StorageNode_init_def Let_def dict_get_def high_metrics_def demo_scaler_def
        demo_model_def get_active_nodes_def new_StorageNode_def)
  then obtain a m' s' where
    e: "control_decision 10 high_metrics demo_model demo_scaler = Inr (a, m', s')"
    by (metis prod_cases3)
  from pool_stays_within_bounds [OF lo hi, of 10 high_metrics a m' s'] e lo hi
  show ?thesis by simp
qed

lemma qualifies_counter_irrelevant:
  "low_interval_qualifies now m (s\<lparr>consecutive_low_intervals := c\<rparr>) metrics =
   low_interval_qualifies now m s metrics"
  by (simp add: low_interval_qualifies_def)

text \<open>
  C9. \<open>should_scale_down\<close> is no query: it writes the counter
  \<open>consecutive_low_intervals\<close>. A call on a qualifying interval (both metrics below
  \<open>low_threshold\<close>, more active nodes than \<open>min_nodes\<close>, cooldown over) adds one to the
  counter and answers whether the new value has reached \<open>required_consecutive_low\<close>; any
  other call sets the counter to 0 and answers False. So with the streak of 2 and the counter
  at 0, as the constructor leaves it, two calls in a row on the same qualifying metrics answer
  False, then True, and the first call has changed the controller.
\<close>

theorem should_scale_down_counts:
  "(low_interval_qualifies now m s metrics \<longrightarrow>
      should_scale_down now m s metrics =
        (consecutive_low_intervals s + 1 \<ge> required_consecutive_low s,
         s\<lparr>consecutive_low_intervals := consecutive_low_intervals s + 1\<rparr>)) \<and>
   (\<not> low_interval_qualifies now m s metrics \<longrightarrow>
      should_scale_down now m s metrics = (False, s\<lparr>consecutive_low_intervals := 0\<rparr>)) \<and>
   (low_interval_qualifies now m s metrics \<and> required_consecutive_low s = 2 \<and>
    consecutive_low_intervals s = 0 \<longrightarrow>
      fst (should_scale_down now m s metrics) = False \<and>
      fst (should_scale_down now m (snd (should_scale_down now m s metrics)) metrics) = True \<and>
      snd (should_scale_down now m s metrics) \<noteq> s)"
proof -
  have ne: "consecutive_low_intervals s = 0 \<Longrightarrow>
      s\<lparr>consecutive_low_intervals := 1\<rparr> \<noteq> s"
  proof
    assume z: "consecutive_low_intervals s = 0" and "s\<lparr>consecutive_low_intervals := 1\<rparr> = s"
    then have "consecutive_low_intervals (s\<lparr>consecutive_low_intervals := 1\<rparr>) = 0" by simp
    then show False by simp
  qed
  show ?thesis
    using ne by (simp add: should_scale_down_cases qualifies_counter_irrelevant)
qed

lemma demo_qualifies:
  "low_interval_qualifies 10 demo_model demo_scaler low_metrics"
  by (simp add: low_interval_qualifies_def dict_get_def low_metrics_def demo_scaler_def
      demo_model_def get_active_nodes_def new_StorageNode_def)

theorem should_scale_down_counts_witness:
  "low_interval_qualifies 10 demo_model demo_scaler low_metrics \<and>
   required_consecutive_low demo_scaler = 2 \<and> consecutive_low_intervals demo_scaler = 0 \<and>
   fst (should_scale_down 10 demo_model demo_scaler low_metrics) = False \<and>
   fst (should_scale_down 10 demo_model
          (snd (should_scale_down 10 demo_model demo_scaler low_metrics)) low_metrics) = True"
proof -
  have c: "required_consecutive_low demo_scaler = 2 \<and> consecutive_low_intervals demo_scaler = 0"
    by (simp add: demo_scaler_def)
  note t = should_scale_down_counts [of 10 demo_model demo_scaler low_metrics]
  from t demo_qualifies c show ?thesis by blast
qed









lemma control_decision_cooldown:
  assumes step: "control_decision now metrics m s = Inr (a, m', s')"
  shows "scale_cooldown s' = scale_cooldown s"
    and "a = No_scaling \<Longrightarrow> last_scale_time s' = last_scale_time s"
    and "a \<noteq> No_scaling \<Longrightarrow>
           scale_cooldown s \<le> now - last_scale_time s \<and> last_scale_time s' = now"
    and "nodes m' \<noteq> nodes m \<Longrightarrow> a \<noteq> No_scaling"
proof -
  show "scale_cooldown s' = scale_cooldown s"
    using step by (cases rule: control_decision_cases) simp_all
  show "a = No_scaling \<Longrightarrow> last_scale_time s' = last_scale_time s"
    using step by (cases rule: control_decision_cases) simp_all
  show "a \<noteq> No_scaling \<Longrightarrow>
           scale_cooldown s \<le> now - last_scale_time s \<and> last_scale_time s' = now"
    using step by (cases rule: control_decision_cases)
      (simp_all add: should_scale_up_iff qualifies_iff)
  show "nodes m' \<noteq> nodes m \<Longrightarrow> a \<noteq> No_scaling"
    using step by (cases rule: control_decision_cases) simp_all
qed

lemma run_controller_gaps:
  "run_controller ticks m s = Inr (acts, m', s') \<Longrightarrow>
     scale_cooldown s' = scale_cooldown s \<and>
     (acts = [] \<longrightarrow> last_scale_time s' = last_scale_time s) \<and>
     (acts \<noteq> [] \<longrightarrow>
        scale_cooldown s \<le> fst (hd acts) - last_scale_time s \<and>
        last_scale_time s' = fst (last acts)) \<and>
     successively (\<lambda>x y. scale_cooldown s \<le> fst y - fst x) acts"
proof (induction ticks arbitrary: m s acts)
  case Nil
  then show ?case by simp
next
  case (Cons tick ticks)
  obtain now metrics where tick: "tick = (now, metrics)" by (cases tick)
  from Cons.prems(1) tick obtain a m1 s1 acts1 where
    step: "control_decision now metrics m s = Inr (a, m1, s1)" and
    rest: "run_controller ticks m1 s1 = Inr (acts1, m', s')" and
    acts: "acts = (if a = No_scaling then [] else [(now, a)]) @ acts1"
    by (auto split: sum.splits)
  note c = control_decision_cooldown [OF step]
  note ih = Cons.IH [OF rest]
  from ih c(1) have cd: "scale_cooldown s' = scale_cooldown s" by simp
  show ?case
  proof (cases "a = No_scaling")
    case True
    with acts have "acts = acts1" by simp
    with ih c(1) c(2) [OF True] show ?thesis by simp
  next
    case False
    with acts have ac: "acts = (now, a) # acts1" by simp
    from c(3) [OF False] have g: "scale_cooldown s \<le> now - last_scale_time s"
      and l: "last_scale_time s1 = now" by simp_all
    have suc: "successively (\<lambda>x y. scale_cooldown s \<le> fst y - fst x) ((now, a) # acts1)"
    proof (cases acts1)
      case Nil
      then show ?thesis by simp
    next
      case (Cons x xs)
      with ih l c(1) have "scale_cooldown s \<le> fst x - now"
        and "successively (\<lambda>x y. scale_cooldown s \<le> fst y - fst x) (x # xs)" by simp_all
      with Cons show ?thesis by simp
    qed
    have lst: "last_scale_time s' = fst (last ((now, a) # acts1))"
    proof (cases "acts1 = []")
      case True
      with ih l show ?thesis by simp
    next
      case False
      with ih show ?thesis by simp
    qed
    from cd g suc lst ac show ?thesis by simp
  qed
qed

text \<open>
  C4. Two scalings that follow one another are at least \<open>scale_cooldown\<close> apart.
  \<open>should_scale_up\<close> and \<open>should_scale_down\<close> answer True only when
  \<open>now - last_scale_time\<close> has reached \<open>scale_cooldown\<close>; a \<open>scale_up\<close> or
  \<open>scale_down\<close> that acts sets \<open>last_scale_time\<close> to \<open>now\<close>. A decision of the
  controller that changes the pool is a scaling, a scaling is taken only with the cooldown over
  and stamps \<open>last_scale_time\<close>, and a decision that scales nothing leaves the stamp alone.
  So in the list of scalings of any run, each entry is at least \<open>scale_cooldown\<close> after the
  one before it, the first is at least \<open>scale_cooldown\<close> after the \<open>last_scale_time\<close> the
  run started with, and the run ends with \<open>last_scale_time\<close> at the last entry.
\<close>

theorem scaling_respects_cooldown:
  "(should_scale_up now m s metrics \<longrightarrow> scale_cooldown s \<le> now - last_scale_time s) \<and>
   (fst (should_scale_down now m s metrics) \<longrightarrow> scale_cooldown s \<le> now - last_scale_time s) \<and>
   (scale_up now m s = Inr (True, m1, s1) \<longrightarrow> last_scale_time s1 = now) \<and>
   (scale_down now m s = (True, m2, s2) \<longrightarrow> last_scale_time s2 = now) \<and>
   (control_decision now metrics m s = Inr (a, m', s') \<longrightarrow>
      (nodes m' \<noteq> nodes m \<longrightarrow> a \<noteq> No_scaling) \<and>
      (a \<noteq> No_scaling \<longrightarrow>
         scale_cooldown s \<le> now - last_scale_time s \<and> last_scale_time s' = now) \<and>
      (a = No_scaling \<longrightarrow> last_scale_time s' = last_scale_time s)) \<and>
   (run_controller ticks m s = Inr (acts, m3, s3) \<longrightarrow>
      (\<forall>i. Suc i < length acts \<longrightarrow> scale_cooldown s \<le> fst (acts ! Suc i) - fst (acts ! i)) \<and>
      (acts \<noteq> [] \<longrightarrow>
         scale_cooldown s \<le> fst (hd acts) - last_scale_time s \<and>
         last_scale_time s3 = fst (last acts)))"
proof -
  have A: "should_scale_up now m s metrics \<longrightarrow> scale_cooldown s \<le> now - last_scale_time s"
    by (simp add: should_scale_up_iff)
  have B: "fst (should_scale_down now m s metrics) \<longrightarrow>
      scale_cooldown s \<le> now - last_scale_time s"
    by (simp add: should_scale_down_cases qualifies_iff)
  have C: "scale_up now m s = Inr (True, m1, s1) \<longrightarrow> last_scale_time s1 = now"
  proof
    assume su: "scale_up now m s = Inr (True, m1, s1)"
    from scale_up_effect(4) [OF su] show "last_scale_time s1 = now" by simp
  qed
  have D: "scale_down now m s = (True, m2, s2) \<longrightarrow> last_scale_time s2 = now"
  proof
    assume sd: "scale_down now m s = (True, m2, s2)"
    from scale_down_effect(4) [OF sd] show "last_scale_time s2 = now" by simp
  qed
  have E: "control_decision now metrics m s = Inr (a, m', s') \<longrightarrow>
      (nodes m' \<noteq> nodes m \<longrightarrow> a \<noteq> No_scaling) \<and>
      (a \<noteq> No_scaling \<longrightarrow>
         scale_cooldown s \<le> now - last_scale_time s \<and> last_scale_time s' = now) \<and>
      (a = No_scaling \<longrightarrow> last_scale_time s' = last_scale_time s)"
  proof (intro impI conjI)
    assume step: "control_decision now metrics m s = Inr (a, m', s')"
    note c = control_decision_cooldown [OF step]
    show "a \<noteq> No_scaling" if "nodes m' \<noteq> nodes m" using c(4) [OF that] .
    show "scale_cooldown s \<le> now - last_scale_time s" if "a \<noteq> No_scaling"
      using c(3) [OF that] by simp
    show "last_scale_time s' = now" if "a \<noteq> No_scaling" using c(3) [OF that] by simp
    show "last_scale_time s' = last_scale_time s" if "a = No_scaling" using c(2) [OF that] .
  qed
  have F: "run_controller ticks m s = Inr (acts, m3, s3) \<longrightarrow>
      (\<forall>i. Suc i < length acts \<longrightarrow> scale_cooldown s \<le> fst (acts ! Suc i) - fst (acts ! i)) \<and>
      (acts \<noteq> [] \<longrightarrow>
         scale_cooldown s \<le> fst (hd acts) - last_scale_time s \<and>
         last_scale_time s3 = fst (last acts))"
  proof
    assume run: "run_controller ticks m s = Inr (acts, m3, s3)"
    note g = run_controller_gaps [OF run]
    from g have "successively (\<lambda>x y. scale_cooldown s \<le> fst y - fst x) acts" by simp
    then have "\<forall>i. Suc i < length acts \<longrightarrow> scale_cooldown s \<le> fst (acts ! Suc i) - fst (acts ! i)"
      by (simp add: successively_conv_nth)
    with g show "(\<forall>i. Suc i < length acts \<longrightarrow> scale_cooldown s \<le> fst (acts ! Suc i) - fst (acts ! i)) \<and>
      (acts \<noteq> [] \<longrightarrow>
         scale_cooldown s \<le> fst (hd acts) - last_scale_time s \<and>
         last_scale_time s3 = fst (last acts))" by simp
  qed
  from A B C D E F show ?thesis by (intro conjI)
qed


lemma demo_run:
  "\<exists>m3 s3. run_controller
       [(10, high_metrics), (15, low_metrics), (20, low_metrics), (25, low_metrics)]
       demo_model demo_scaler = Inr ([(10, Scale_up), (25, Scale_down)], m3, s3)"
  by (simp add: control_decision_def should_scale_up_def should_scale_down_def scale_up_def
      scale_down_def add_node_def remove_node_def StorageNode_init_def Let_def dict_get_def
      high_metrics_def low_metrics_def demo_scaler_def demo_model_def get_active_nodes_def
      new_StorageNode_def)

theorem scaling_respects_cooldown_witness:
  "(case run_controller
       [(10, high_metrics), (15, low_metrics), (20, low_metrics), (25, low_metrics)]
       demo_model demo_scaler of
      Inl e \<Rightarrow> False
    | Inr (acts, m3, s3) \<Rightarrow>
        acts = [(10, Scale_up), (25, Scale_down)] \<and>
        scale_cooldown demo_scaler \<le> fst (acts ! 1) - fst (acts ! 0) \<and>
        scale_cooldown demo_scaler \<le> fst (hd acts) - last_scale_time demo_scaler \<and>
        last_scale_time s3 = 25)"
proof -
  let ?acts = "[(10::real, Scale_up), (25, Scale_down)]"
  from demo_run obtain m3 s3 where
    e: "run_controller
       [(10, high_metrics), (15, low_metrics), (20, low_metrics), (25, low_metrics)]
       demo_model demo_scaler = Inr (?acts, m3, s3)" by blast
  note t = scaling_respects_cooldown [of _ demo_model demo_scaler _ _ _ _ _ _ _ _
      "[(10, high_metrics), (15, low_metrics), (20, low_metrics), (25, low_metrics)]"
      ?acts m3 s3]
  from t e have
    g: "\<forall>i. Suc i < length ?acts \<longrightarrow> scale_cooldown demo_scaler \<le> fst (?acts ! Suc i) - fst (?acts ! i)"
    and h: "scale_cooldown demo_scaler \<le> fst (hd ?acts) - last_scale_time demo_scaler"
    and l: "last_scale_time s3 = fst (last ?acts)"
    by simp_all
  from g have "scale_cooldown demo_scaler \<le> fst (?acts ! 1) - fst (?acts ! 0)"
    by (metis One_nat_def length_Cons list.size(3) lessI)
  with h l show ?thesis unfolding e by simp
qed

section \<open>Properties of the queue-length averages\<close>

lemma elapsed_Cons2:
  "elapsed ((t1, q1) # (t2, q2) # rest) = (t2 - t1) + elapsed ((t2, q2) # rest)"
  by (simp add: elapsed_def)

lemma series_area_loop_eq:
  "samples \<noteq> [] \<Longrightarrow>
   series_area_loop (map fst samples) (map snd samples) (a, t) =
     Inr (a + left_integral samples, t + elapsed samples)"
proof (induction samples arbitrary: a t rule: left_integral.induct)
  case (1 t1 q1 t2 q2 rest)
  then show ?case by (simp add: elapsed_Cons2 Let_def algebra_simps)
qed (simp_all add: elapsed_def)

lemma interval_area_loop_eq:
  "sorted (map fst samples) \<Longrightarrow> samples \<noteq> [] \<Longrightarrow>
   interval_area_loop samples (a, t) = (a + trapezoidal_integral samples, t + elapsed samples)"
proof (induction samples arbitrary: a t rule: trapezoidal_integral.induct)
  case (1 t1 q1 t2 q2 rest)
  from "1.prems" have le: "t1 \<le> t2" and srt: "sorted (map fst ((t2, q2) # rest))" by simp_all
  show ?case
  proof (cases "t2 - t1 > 0")
    case True
    with "1.IH" [OF srt] show ?thesis by (simp add: elapsed_Cons2 Let_def field_simps)
  next
    case False
    with le have "t2 = t1" by simp
    with "1.IH" [OF srt] show ?thesis by (simp add: elapsed_Cons2 Let_def)
  qed
qed (simp_all add: elapsed_def)

lemma constant_integrals:
  "\<forall>x\<in>set samples. snd x = q \<Longrightarrow> samples \<noteq> [] \<Longrightarrow>
   left_integral samples = real_of_int q * elapsed samples \<and>
   trapezoidal_integral samples = real_of_int q * elapsed samples"
proof (induction samples rule: left_integral.induct)
  case (1 t1 q1 t2 q2 rest)
  then show ?case by (simp add: elapsed_Cons2 algebra_simps)
qed (simp_all add: elapsed_def)


lemma collector_avg_left:
  assumes "2 \<le> length samples" and "fst (hd samples) < fst (last samples)"
  shows "avg_queue_length_of (map fst samples) (map snd samples) =
           Inr (left_integral samples / elapsed samples)"
proof -
  from assms have ne: "samples \<noteq> []" and pos: "0 < elapsed samples" and len: "1 < length samples"
    by (auto simp: elapsed_def)
  show ?thesis
    using len pos by (simp add: avg_queue_length_of_def series_area_loop_eq [OF ne])
qed

lemma interval_avg_trapezoid:
  assumes "2 \<le> length samples" and "sorted (map fst samples)"
    and "fst (hd samples) < fst (last samples)"
  shows "interval_avg_queue_length samples current_queue_length =
           trapezoidal_integral samples / elapsed samples"
proof -
  from assms have ne: "samples \<noteq> []" and pos: "0 < elapsed samples" and len: "1 < length samples"
    by (auto simp: elapsed_def)
  show ?thesis
    using len pos
    by (simp add: interval_avg_queue_length_def interval_area_loop_eq [OF assms(2) ne])
qed

lemma calculate_interval_metrics_appends:
  assumes "interval_queue_lengths s = [] \<or> fst (last (interval_queue_lengths s)) < interval_end_time"
  shows "fst (calculate_interval_metrics interval_end_time m s) ''queue_length'' =
           Some (interval_avg_queue_length
                   (interval_queue_lengths s @ [(interval_end_time, get_queue_length m)])
                   (get_queue_length m))"
    and "interval_queue_lengths (snd (calculate_interval_metrics interval_end_time m s)) =
           interval_queue_lengths s @ [(interval_end_time, get_queue_length m)]"
  using assms by (simp_all add: calculate_interval_metrics_def Let_def)

lemma calculate_interval_metrics_keeps:
  assumes "interval_queue_lengths s \<noteq> []"
    and "interval_end_time \<le> fst (last (interval_queue_lengths s))"
  shows "fst (calculate_interval_metrics interval_end_time m s) ''queue_length'' =
           Some (interval_avg_queue_length (interval_queue_lengths s) (get_queue_length m))"
    and "interval_queue_lengths (snd (calculate_interval_metrics interval_end_time m s)) =
           interval_queue_lengths s"
  using assms by (simp_all add: calculate_interval_metrics_def Let_def)

lemma closed_series:
  assumes ne: "recorded \<noteq> []" and srt: "sorted (map fst recorded)"
    and lt: "fst (last recorded) < t"
  shows "2 \<le> length (recorded @ [(t, q)])" and "sorted (map fst (recorded @ [(t, q)]))"
    and "fst (hd (recorded @ [(t, q)])) < fst (last (recorded @ [(t, q)]))"
proof -
  from ne show "2 \<le> length (recorded @ [(t, q)])" by (cases recorded) simp_all
  have le: "\<forall>x\<in>set (map fst recorded). x \<le> fst (last recorded)"
  proof
    fix x assume x: "x \<in> set (map fst recorded)"
    from ne have l: "last (map fst recorded) = fst (last recorded)" by (simp add: last_map)
    from x obtain i where i: "i < length (map fst recorded)" "map fst recorded ! i = x"
      by (auto simp: in_set_conv_nth)
    from ne have n: "map fst recorded \<noteq> []" by simp
    from i(1) have "i \<le> length (map fst recorded) - 1" by simp
    with srt i(1) have "map fst recorded ! i \<le> map fst recorded ! (length (map fst recorded) - 1)"
      by (intro sorted_nth_mono) simp_all
    with i(2) l n show "x \<le> fst (last recorded)" by (simp add: last_conv_nth)
  qed
  with srt lt show "sorted (map fst (recorded @ [(t, q)]))"
    by (auto simp: sorted_append)
  from ne have "hd recorded \<in> set recorded" by simp
  then have "fst (hd recorded) \<in> set (map fst recorded)" by simp
  with le have "fst (hd recorded) \<le> fst (last recorded)" by blast
  with lt ne show "fst (hd (recorded @ [(t, q)])) < fst (last (recorded @ [(t, q)]))" by simp
qed

text \<open>
  C2, as the code has it. For a series of at least two snapshots whose last time is after
  the first, \<open>get_aggregated_metrics\<close> gives as \<open>avg_queue_length\<close> the integral that
  holds each queue length until the next sample (left endpoint), divided by the elapsed
  time; it gives \<open>q\<close> when every sample has the queue length \<open>q\<close>, and on a single sample
  that sample. \<open>_calculate_interval_metrics\<close> integrates another series: it first appends
  the closing sample (the end of the interval, the current queue length) to the samples of
  the interval, unless the last of them is at the end of the interval or later. With samples
  in time order it then gives the trapezoidal integral of that series divided by its elapsed
  time: of the samples with the closing sample when it was appended, of the samples alone
  (at least two, the last after the first) when it was not. With no sample in the interval
  it gives the current queue length, with one sample not before the end of the interval that
  sample. It gives \<open>q\<close> when every sample of the series it integrates, the closing sample
  included, has the queue length \<open>q\<close>.
\<close>

theorem queue_length_averages:
  "(2 \<le> length samples \<and> fst (hd samples) < fst (last samples) \<longrightarrow>
      avg_queue_length_of (map fst samples) (map snd samples) =
        Inr (left_integral samples / elapsed samples) \<and>
      ((\<forall>x\<in>set samples. snd x = q) \<longrightarrow>
         avg_queue_length_of (map fst samples) (map snd samples) = Inr (real_of_int q))) \<and>
   avg_queue_length_of [t] [q] = Inr (real_of_int q) \<and>
   (interval_queue_lengths s \<noteq> [] \<and> sorted (map fst (interval_queue_lengths s)) \<and>
    fst (last (interval_queue_lengths s)) < interval_end_time \<longrightarrow>
      fst (calculate_interval_metrics interval_end_time m s) ''queue_length'' =
        Some (trapezoidal_integral
                (interval_queue_lengths s @ [(interval_end_time, get_queue_length m)]) /
              elapsed (interval_queue_lengths s @ [(interval_end_time, get_queue_length m)])) \<and>
      interval_queue_lengths (snd (calculate_interval_metrics interval_end_time m s)) =
        interval_queue_lengths s @ [(interval_end_time, get_queue_length m)] \<and>
      ((\<forall>x\<in>set (interval_queue_lengths s). snd x = q) \<and> get_queue_length m = q \<longrightarrow>
         fst (calculate_interval_metrics interval_end_time m s) ''queue_length'' =
           Some (real_of_int q))) \<and>
   (2 \<le> length (interval_queue_lengths s) \<and> sorted (map fst (interval_queue_lengths s)) \<and>
    fst (hd (interval_queue_lengths s)) < fst (last (interval_queue_lengths s)) \<and>
    interval_end_time \<le> fst (last (interval_queue_lengths s)) \<longrightarrow>
      fst (calculate_interval_metrics interval_end_time m s) ''queue_length'' =
        Some (trapezoidal_integral (interval_queue_lengths s) /
              elapsed (interval_queue_lengths s)) \<and>
      interval_queue_lengths (snd (calculate_interval_metrics interval_end_time m s)) =
        interval_queue_lengths s \<and>
      ((\<forall>x\<in>set (interval_queue_lengths s). snd x = q) \<longrightarrow>
         fst (calculate_interval_metrics interval_end_time m s) ''queue_length'' =
           Some (real_of_int q))) \<and>
   (interval_queue_lengths s = [] \<longrightarrow>
      fst (calculate_interval_metrics interval_end_time m s) ''queue_length'' =
        Some (real_of_int (get_queue_length m))) \<and>
   (interval_queue_lengths s = [(t, q)] \<and> interval_end_time \<le> t \<longrightarrow>
      fst (calculate_interval_metrics interval_end_time m s) ''queue_length'' =
        Some (real_of_int q))"
proof (intro conjI)
  show "2 \<le> length samples \<and> fst (hd samples) < fst (last samples) \<longrightarrow>
      avg_queue_length_of (map fst samples) (map snd samples) =
        Inr (left_integral samples / elapsed samples) \<and>
      ((\<forall>x\<in>set samples. snd x = q) \<longrightarrow>
         avg_queue_length_of (map fst samples) (map snd samples) = Inr (real_of_int q))"
  proof
    assume h: "2 \<le> length samples \<and> fst (hd samples) < fst (last samples)"
    then have len: "2 \<le> length samples" and lt: "fst (hd samples) < fst (last samples)"
      by simp_all
    from h have ne: "samples \<noteq> []" and pos: "0 < elapsed samples"
      by (auto simp: elapsed_def)
    note a = collector_avg_left [OF len lt]
    have b: "(\<forall>x\<in>set samples. snd x = q) \<longrightarrow>
         avg_queue_length_of (map fst samples) (map snd samples) = Inr (real_of_int q)"
    proof
      assume c: "\<forall>x\<in>set samples. snd x = q"
      from constant_integrals [OF c ne] pos
      show "avg_queue_length_of (map fst samples) (map snd samples) = Inr (real_of_int q)"
        by (simp add: a)
    qed
    from a b show "avg_queue_length_of (map fst samples) (map snd samples) =
        Inr (left_integral samples / elapsed samples) \<and>
      ((\<forall>x\<in>set samples. snd x = q) \<longrightarrow>
         avg_queue_length_of (map fst samples) (map snd samples) = Inr (real_of_int q))"
      by simp
  qed
next
  show "avg_queue_length_of [t] [q] = Inr (real_of_int q)"
    by (simp add: avg_queue_length_of_def)
next
  let ?rec = "interval_queue_lengths s"
  let ?closed = "?rec @ [(interval_end_time, get_queue_length m)]"
  show "?rec \<noteq> [] \<and> sorted (map fst ?rec) \<and> fst (last ?rec) < interval_end_time \<longrightarrow>
      fst (calculate_interval_metrics interval_end_time m s) ''queue_length'' =
        Some (trapezoidal_integral ?closed / elapsed ?closed) \<and>
      interval_queue_lengths (snd (calculate_interval_metrics interval_end_time m s)) = ?closed \<and>
      ((\<forall>x\<in>set ?rec. snd x = q) \<and> get_queue_length m = q \<longrightarrow>
         fst (calculate_interval_metrics interval_end_time m s) ''queue_length'' =
           Some (real_of_int q))"
  proof
    assume h: "?rec \<noteq> [] \<and> sorted (map fst ?rec) \<and> fst (last ?rec) < interval_end_time"
    then have ne: "?rec \<noteq> []" and srt: "sorted (map fst ?rec)"
      and lt: "fst (last ?rec) < interval_end_time" by simp_all
    from lt have ap: "?rec = [] \<or> fst (last ?rec) < interval_end_time" by simp
    note cl = closed_series [OF ne srt lt, of "get_queue_length m"]
    note tr = interval_avg_trapezoid [OF cl, of "get_queue_length m"]
    from cl(3) have pos: "0 < elapsed ?closed" by (simp add: elapsed_def)
    have a: "fst (calculate_interval_metrics interval_end_time m s) ''queue_length'' =
        Some (trapezoidal_integral ?closed / elapsed ?closed)"
      by (simp only: calculate_interval_metrics_appends(1) [OF ap] tr)
    have b: "interval_queue_lengths (snd (calculate_interval_metrics interval_end_time m s)) =
        ?closed"
      by (rule calculate_interval_metrics_appends(2) [OF ap])
    have c: "(\<forall>x\<in>set ?rec. snd x = q) \<and> get_queue_length m = q \<longrightarrow>
         fst (calculate_interval_metrics interval_end_time m s) ''queue_length'' =
           Some (real_of_int q)"
    proof
      assume k: "(\<forall>x\<in>set ?rec. snd x = q) \<and> get_queue_length m = q"
      then have all: "\<forall>x\<in>set ?closed. snd x = q" by simp
      have "?closed \<noteq> []" by simp
      from constant_integrals [OF all this] pos
      have "trapezoidal_integral ?closed / elapsed ?closed = real_of_int q" by simp
      with a show "fst (calculate_interval_metrics interval_end_time m s) ''queue_length'' =
           Some (real_of_int q)" by simp
    qed
    from a b c show "fst (calculate_interval_metrics interval_end_time m s) ''queue_length'' =
        Some (trapezoidal_integral ?closed / elapsed ?closed) \<and>
      interval_queue_lengths (snd (calculate_interval_metrics interval_end_time m s)) = ?closed \<and>
      ((\<forall>x\<in>set ?rec. snd x = q) \<and> get_queue_length m = q \<longrightarrow>
         fst (calculate_interval_metrics interval_end_time m s) ''queue_length'' =
           Some (real_of_int q))"
      by simp
  qed
next
  let ?rec = "interval_queue_lengths s"
  show "2 \<le> length ?rec \<and> sorted (map fst ?rec) \<and> fst (hd ?rec) < fst (last ?rec) \<and>
    interval_end_time \<le> fst (last ?rec) \<longrightarrow>
      fst (calculate_interval_metrics interval_end_time m s) ''queue_length'' =
        Some (trapezoidal_integral ?rec / elapsed ?rec) \<and>
      interval_queue_lengths (snd (calculate_interval_metrics interval_end_time m s)) = ?rec \<and>
      ((\<forall>x\<in>set ?rec. snd x = q) \<longrightarrow>
         fst (calculate_interval_metrics interval_end_time m s) ''queue_length'' =
           Some (real_of_int q))"
  proof
    assume h: "2 \<le> length ?rec \<and> sorted (map fst ?rec) \<and> fst (hd ?rec) < fst (last ?rec) \<and>
      interval_end_time \<le> fst (last ?rec)"
    then have len: "2 \<le> length ?rec" and srt: "sorted (map fst ?rec)"
      and lt: "fst (hd ?rec) < fst (last ?rec)" and le: "interval_end_time \<le> fst (last ?rec)"
      by simp_all
    from len have ne: "?rec \<noteq> []" by auto
    note tr = interval_avg_trapezoid [OF len srt lt, of "get_queue_length m"]
    have a: "fst (calculate_interval_metrics interval_end_time m s) ''queue_length'' =
        Some (trapezoidal_integral ?rec / elapsed ?rec)"
      by (simp only: calculate_interval_metrics_keeps(1) [OF ne le] tr)
    have b: "interval_queue_lengths (snd (calculate_interval_metrics interval_end_time m s)) = ?rec"
      by (rule calculate_interval_metrics_keeps(2) [OF ne le])
    from lt have pos: "0 < elapsed ?rec" by (simp add: elapsed_def)
    have c: "(\<forall>x\<in>set ?rec. snd x = q) \<longrightarrow>
         fst (calculate_interval_metrics interval_end_time m s) ''queue_length'' =
           Some (real_of_int q)"
    proof
      assume all: "\<forall>x\<in>set ?rec. snd x = q"
      from constant_integrals [OF all ne] pos
      have "trapezoidal_integral ?rec / elapsed ?rec = real_of_int q" by simp
      with a show "fst (calculate_interval_metrics interval_end_time m s) ''queue_length'' =
           Some (real_of_int q)" by simp
    qed
    from a b c show "fst (calculate_interval_metrics interval_end_time m s) ''queue_length'' =
        Some (trapezoidal_integral ?rec / elapsed ?rec) \<and>
      interval_queue_lengths (snd (calculate_interval_metrics interval_end_time m s)) = ?rec \<and>
      ((\<forall>x\<in>set ?rec. snd x = q) \<longrightarrow>
         fst (calculate_interval_metrics interval_end_time m s) ''queue_length'' =
           Some (real_of_int q))"
      by simp
  qed
next
  show "interval_queue_lengths s = [] \<longrightarrow>
      fst (calculate_interval_metrics interval_end_time m s) ''queue_length'' =
        Some (real_of_int (get_queue_length m))"
  proof
    assume e: "interval_queue_lengths s = []"
    then have ap: "interval_queue_lengths s = [] \<or>
        fst (last (interval_queue_lengths s)) < interval_end_time" by simp
    show "fst (calculate_interval_metrics interval_end_time m s) ''queue_length'' =
        Some (real_of_int (get_queue_length m))"
      by (simp add: calculate_interval_metrics_appends(1) [OF ap] e interval_avg_queue_length_def)
  qed
next
  show "interval_queue_lengths s = [(t, q)] \<and> interval_end_time \<le> t \<longrightarrow>
      fst (calculate_interval_metrics interval_end_time m s) ''queue_length'' =
        Some (real_of_int q)"
  proof
    assume h: "interval_queue_lengths s = [(t, q)] \<and> interval_end_time \<le> t"
    then have e: "interval_queue_lengths s = [(t, q)]" and le: "interval_end_time \<le> t"
      by simp_all
    from e have ne: "interval_queue_lengths s \<noteq> []" by simp
    from e le have le': "interval_end_time \<le> fst (last (interval_queue_lengths s))" by simp
    show "fst (calculate_interval_metrics interval_end_time m s) ''queue_length'' =
        Some (real_of_int q)"
      by (simp add: calculate_interval_metrics_keeps(1) [OF ne le'] e
          interval_avg_queue_length_def)
  qed
qed

text \<open>
  C2 as stated fails: two snapshots, queue length 0 at time 0.5 and 2 at time 1. The
  trapezoidal average is 1, and \<open>_calculate_interval_metrics\<close> returns 1 for the
  interval that ends at time 1 with these two samples; the collector, given the same
  snapshots by \<open>record_snapshot\<close>, returns 0. And the controller closes the interval with
  a sample of its own: with the samples 3 at time 1 and 3 at time 2 and an empty queue at
  the end of the interval, time 5, it returns 15/8, the collector 3.
\<close>

theorem queue_length_averages_differ:
  "get_aggregated_avg_queue_length
     (record_samples (MetricsCollector_init 10000) [(1/2, 0), (1, 2)]) = Inr 0 \<and>
   trapezoidal_integral [(1/2, 0), (1, 2)] / elapsed [(1/2, 0), (1, 2)] = 1 \<and>
   interval_avg_queue_length [(1/2, 0), (1, 2)] 2 = 1 \<and>
   fst (calculate_interval_metrics 1 demo_model
          (demo_scaler\<lparr>interval_queue_lengths := [(1/2, 0), (1, 2)]\<rparr>)) ''queue_length'' = Some 1 \<and>
   get_aggregated_avg_queue_length
     (record_samples (MetricsCollector_init 10000) [(1, 3), (2, 3)]) = Inr 3 \<and>
   fst (calculate_interval_metrics 5 demo_model
          (demo_scaler\<lparr>interval_queue_lengths := [(1, 3), (2, 3)]\<rparr>)) ''queue_length'' = Some (15/8)"
  by (simp add: get_aggregated_avg_queue_length_def MetricsCollector_init_def
      record_snapshot_def deque_append_def avg_queue_length_of_def elapsed_def
      interval_avg_queue_length_def calculate_interval_metrics_def get_queue_length_def
      demo_model_def demo_scaler_def Let_def)

theorem queue_length_averages_witness:
  "avg_queue_length_of [1/2, 1, 2] [4, 0, 4] = Inr (4/3) \<and>
   avg_queue_length_of [1/2, 1] [3, 3] = Inr 3 \<and>
   fst (calculate_interval_metrics 5 demo_model
          (demo_scaler\<lparr>interval_queue_lengths := [(1, 3), (2, 3)]\<rparr>)) ''queue_length'' = Some (15/8) \<and>
   fst (calculate_interval_metrics 5 demo_model
          (demo_scaler\<lparr>interval_queue_lengths := [(1, 0), (2, 0)]\<rparr>)) ''queue_length'' = Some 0 \<and>
   fst (calculate_interval_metrics 2 demo_model
          (demo_scaler\<lparr>interval_queue_lengths := [(1/2, 4), (1, 0), (2, 4)]\<rparr>)) ''queue_length'' = Some 2"
proof -
  have q: "get_queue_length demo_model = 0"
    by (simp add: get_queue_length_def demo_model_def)
  have a: "avg_queue_length_of [1/2, 1, 2] [4, 0, 4] = Inr (4/3)"
    using queue_length_averages [of "[(1/2, 4), (1, 0), (2, 4)]" 0]
    by (simp add: elapsed_def)
  have b: "avg_queue_length_of [1/2, 1] [3, 3] = Inr 3"
    using queue_length_averages [of "[(1/2, 3), (1, 3)]" 3]
    by (simp add: elapsed_def)
  have c: "fst (calculate_interval_metrics 5 demo_model
          (demo_scaler\<lparr>interval_queue_lengths := [(1, 3), (2, 3)]\<rparr>)) ''queue_length'' = Some (15/8)"
    using queue_length_averages
      [of "[]" 0 0 "demo_scaler\<lparr>interval_queue_lengths := [(1, 3), (2, 3)]\<rparr>" 5 demo_model]
    by (simp add: elapsed_def q)
  have d: "fst (calculate_interval_metrics 5 demo_model
          (demo_scaler\<lparr>interval_queue_lengths := [(1, 0), (2, 0)]\<rparr>)) ''queue_length'' = Some 0"
    using queue_length_averages
      [of "[]" 0 0 "demo_scaler\<lparr>interval_queue_lengths := [(1, 0), (2, 0)]\<rparr>" 5 demo_model]
    by (simp add: q)
  have e: "fst (calculate_interval_metrics 2 demo_model
          (demo_scaler\<lparr>interval_queue_lengths := [(1/2, 4), (1, 0), (2, 4)]\<rparr>)) ''queue_length'' = Some 2"
    using queue_length_averages
      [of "[]" 0 0 "demo_scaler\<lparr>interval_queue_lengths := [(1/2, 4), (1, 0), (2, 4)]\<rparr>" 2 demo_model]
    by (simp add: elapsed_def)
  from a b c d e show ?thesis by simp
qed

section \<open>Properties of the constructors\<close>



lemma add_nodes_error: "add_nodes k m = Inl e \<Longrightarrow> e = ValueError"
proof (induction k arbitrary: m)
  case 0
  then show ?case by simp
next
  case (Suc k)
  then show ?case
    by (auto simp: add_node_def StorageNode_init_def split: if_splits)
qed








section \<open>Properties of the request path\<close>

lemma scale_up_frame:
  "scale_up now m s = Inr (ok, m', s') \<Longrightarrow> m' = m\<lparr>nodes := nodes m'\<rparr>"
  by (auto simp: scale_up_def add_node_def StorageNode_init_def Let_def split: if_splits)

lemma scale_down_frame:
  "scale_down now m s = (ok, m', s') \<Longrightarrow> m' = m\<lparr>nodes := nodes m'\<rparr>"
  by (auto simp: scale_down_def remove_node_def Let_def split: if_splits)

lemma control_decision_frame:
  assumes "control_decision now metrics m s = Inr (a, m', s')"
  shows "m' = m\<lparr>nodes := nodes m'\<rparr>"
proof (cases "should_scale_up now m s metrics")
  case True
  with assms obtain ok where "scale_up now m s = Inr (ok, m', s')"
    by (auto simp: control_decision_def split: sum.splits)
  then show ?thesis by (rule scale_up_frame)
next
  case False
  obtain down s1 where sd: "should_scale_down now m s metrics = (down, s1)"
    by (cases "should_scale_down now m s metrics") auto
  show ?thesis
  proof (cases down)
    case True
    obtain ok m2 s2 where e: "scale_down now m s1 = (ok, m2, s2)"
      by (cases "scale_down now m s1") auto
    from assms False True have "m2 = m'"
      unfolding control_decision_def by (simp add: sd e)
    with scale_down_frame [OF e] show ?thesis by simp
  next
    case nd: False
    from assms False nd have "m' = m"
      unfolding control_decision_def by (simp add: sd)
    then show ?thesis by simp
  qed
qed

lemma control_loop_pass_frame:
  assumes "control_loop_pass t m s = Inr (a, m', s')"
  shows "m' = m\<lparr>nodes := nodes m'\<rparr>"
proof -
  obtain metrics s1 where c: "calculate_interval_metrics t m s = (metrics, s1)"
    by (cases "calculate_interval_metrics t m s") auto
  from assms obtain s3 where
    "control_decision t metrics m (s1\<lparr>metrics_history := metrics_history s1 @ [metrics(''time'' \<mapsto> t)]\<rparr>)
       = Inr (a, m', s3)"
    unfolding control_loop_pass_def by (auto simp: c Let_def split: sum.splits)
  then show ?thesis by (rule control_decision_frame)
qed

lemma current_in_system_next:
  "current_in_system (m\<lparr>next_request_id := n\<rparr>) = current_in_system m"
  by (simp add: current_in_system_def)

lemma users_sum_nonneg: "0 \<le> sum_list (map (\<lambda>node. int (length (users node))) ns)"
  by (induction ns) auto

lemma room_below_cap:
  assumes cap: "store_capacity (queue m) = queue_capacity_of (max_requests_in_flight m)"
    and below: "case max_requests_in_flight m of None \<Rightarrow> True | Some c \<Rightarrow> current_in_system m < c"
  shows "has_room (queue m)"
    and "case max_requests_in_flight m of None \<Rightarrow> True | Some c \<Rightarrow> int (length (items (queue m))) < c"
proof -
  have le: "int (length (items (queue m))) \<le> current_in_system m"
    using users_sum_nonneg [of "nodes m"] by (simp add: current_in_system_def)
  show "case max_requests_in_flight m of None \<Rightarrow> True | Some c \<Rightarrow> int (length (items (queue m))) < c"
    using below le by (auto split: option.splits)
  show "has_room (queue m)"
    using below le cap by (auto simp: has_room_def queue_capacity_of_def split: option.splits)
qed

lemma request_generator_arrival_eq:
  "request_generator_arrival put now service m =
     (if (case max_requests_in_flight m of None \<Rightarrow> False | Some c \<Rightarrow> c \<le> current_in_system m)
      then (Rejected_at_cap,
            m\<lparr>next_request_id := next_request_id m + 1,
              rejected_requests := rejected_requests m @
                [reject ((new_Request (next_request_id m) now)\<lparr>service_time := Some service\<rparr>)
                   ''queue_full'']\<rparr>)
      else
        (case put (queue m) ((new_Request (next_request_id m) now)
                \<lparr>service_time := Some service, queue_entry_time := Some now\<rparr>) of
           Put_stored q' \<Rightarrow>
             (Enqueued, m\<lparr>next_request_id := next_request_id m + 1, queue := q'\<rparr>)
         | Put_pending \<Rightarrow>
             (Put_waits ((new_Request (next_request_id m) now)
                \<lparr>service_time := Some service, queue_entry_time := Some now\<rparr>),
              m\<lparr>next_request_id := next_request_id m + 1\<rparr>)
         | Put_raised \<Rightarrow>
             (Rejected_in_handler,
              m\<lparr>next_request_id := next_request_id m + 1,
                rejected_requests := rejected_requests m @
                  [reject ((new_Request (next_request_id m) now)
                     \<lparr>service_time := Some service, queue_entry_time := Some now\<rparr>)
                     ''queue_full'']\<rparr>)))"
  unfolding request_generator_arrival_def Let_def
  by (simp add: current_in_system_next cong: option.case_cong split: put_outcome.splits)

lemma generator_arrival_cases:
  assumes "request_generator_arrival put now service m = (out, m')"
  obtains
    (cap) c where "max_requests_in_flight m = Some c" "c \<le> current_in_system m"
      "out = Rejected_at_cap"
      "m' = m\<lparr>next_request_id := next_request_id m + 1,
              rejected_requests := rejected_requests m @
                [reject ((new_Request (next_request_id m) now)\<lparr>service_time := Some service\<rparr>)
                   ''queue_full'']\<rparr>"
  | (stored) q' where
      "case max_requests_in_flight m of None \<Rightarrow> True | Some c \<Rightarrow> current_in_system m < c"
      "put (queue m) ((new_Request (next_request_id m) now)
          \<lparr>service_time := Some service, queue_entry_time := Some now\<rparr>) = Put_stored q'"
      "out = Enqueued"
      "m' = m\<lparr>next_request_id := next_request_id m + 1, queue := q'\<rparr>"
  | (pending)
      "case max_requests_in_flight m of None \<Rightarrow> True | Some c \<Rightarrow> current_in_system m < c"
      "put (queue m) ((new_Request (next_request_id m) now)
          \<lparr>service_time := Some service, queue_entry_time := Some now\<rparr>) = Put_pending"
      "out = Put_waits ((new_Request (next_request_id m) now)
          \<lparr>service_time := Some service, queue_entry_time := Some now\<rparr>)"
      "m' = m\<lparr>next_request_id := next_request_id m + 1\<rparr>"
  | (raised)
      "case max_requests_in_flight m of None \<Rightarrow> True | Some c \<Rightarrow> current_in_system m < c"
      "put (queue m) ((new_Request (next_request_id m) now)
          \<lparr>service_time := Some service, queue_entry_time := Some now\<rparr>) = Put_raised"
      "out = Rejected_in_handler"
      "m' = m\<lparr>next_request_id := next_request_id m + 1,
              rejected_requests := rejected_requests m @
                [reject ((new_Request (next_request_id m) now)
                   \<lparr>service_time := Some service, queue_entry_time := Some now\<rparr>) ''queue_full'']\<rparr>"
proof (cases "case max_requests_in_flight m of None \<Rightarrow> False | Some c \<Rightarrow> c \<le> current_in_system m")
  case True
  then obtain c where c: "max_requests_in_flight m = Some c" "c \<le> current_in_system m"
    by (cases "max_requests_in_flight m") auto
  from assms True have "out = Rejected_at_cap \<and>
      m' = m\<lparr>next_request_id := next_request_id m + 1,
              rejected_requests := rejected_requests m @
                [reject ((new_Request (next_request_id m) now)\<lparr>service_time := Some service\<rparr>)
                   ''queue_full'']\<rparr>"
    unfolding request_generator_arrival_eq by auto
  with c show ?thesis using cap by blast
next
  case False
  then have below: "case max_requests_in_flight m of None \<Rightarrow> True | Some c \<Rightarrow> current_in_system m < c"
    by (cases "max_requests_in_flight m") auto
  show ?thesis
  proof (cases "put (queue m) ((new_Request (next_request_id m) now)
          \<lparr>service_time := Some service, queue_entry_time := Some now\<rparr>)")
    case (Put_stored q')
    from assms False have "out = Enqueued \<and>
        m' = m\<lparr>next_request_id := next_request_id m + 1, queue := q'\<rparr>"
      unfolding request_generator_arrival_eq Put_stored by auto
    with below Put_stored show ?thesis using stored by blast
  next
    case Put_pending
    from assms False have "out = Put_waits ((new_Request (next_request_id m) now)
          \<lparr>service_time := Some service, queue_entry_time := Some now\<rparr>) \<and>
        m' = m\<lparr>next_request_id := next_request_id m + 1\<rparr>"
      unfolding request_generator_arrival_eq Put_pending by auto
    with below Put_pending show ?thesis using pending by blast
  next
    case Put_raised
    from assms False have "out = Rejected_in_handler \<and>
        m' = m\<lparr>next_request_id := next_request_id m + 1,
              rejected_requests := rejected_requests m @
                [reject ((new_Request (next_request_id m) now)
                   \<lparr>service_time := Some service, queue_entry_time := Some now\<rparr>) ''queue_full'']\<rparr>"
      unfolding request_generator_arrival_eq Put_raised by auto
    with below Put_raised show ?thesis using raised by blast
  qed
qed

lemma simpy_put_room:
  "has_room q \<Longrightarrow> simpy_put q r = Put_stored (q\<lparr>items := items q @ [r]\<rparr>)"
  by (simp add: simpy_put_def)


lemma upto_snoc: "0 \<le> n \<Longrightarrow> [0..n] = [0..n - 1] @ [n]"
  by (rule upto_rec2)

lemma waiting_shape_mono: "waiting_shape now r \<Longrightarrow> now \<le> t \<Longrightarrow> waiting_shape t r"
  by (simp add: waiting_shape_def)

lemma flight_shape_mono: "flight_shape now f \<Longrightarrow> now \<le> t \<Longrightarrow> flight_shape t f"
  by (auto simp: flight_shape_def split: phase.splits option.splits)

lemma shapes_ok_later:
  assumes "shapes_ok w" and "w_now w \<le> t"
  shows "shapes_ok (w\<lparr>w_now := t\<rparr>)"
  using assms
  by (auto simp: shapes_ok_def Let_def intro: waiting_shape_mono flight_shape_mono)

lemma new_request_shapes:
  assumes "0 \<le> t" and "uniform_sample low high service"
  shows "waiting_shape t ((new_Request n t)\<lparr>service_time := Some service, queue_entry_time := Some t\<rparr>)"
    and "sampled low high ((new_Request n t)\<lparr>service_time := Some service, queue_entry_time := Some t\<rparr>)"
    and "rejected_shape (reject ((new_Request n t)\<lparr>service_time := Some service\<rparr>) ''queue_full'')"
    and "request_id ((new_Request n t)\<lparr>service_time := Some service, queue_entry_time := Some t\<rparr>) = n"
    and "request_id (reject ((new_Request n t)\<lparr>service_time := Some service\<rparr>) ''queue_full'') = n"
  using assms
  by (simp_all add: waiting_shape_def pending_shape_def sampled_def rejected_shape_def
      reject_def new_Request_def)

lemma step_Arrive_cases:
  assumes st: "step (Arrive t service) w = Inr w'" and cap: "capacity_ok w"
  obtains
    (stopped) "w_now w \<le> t" "w' = w\<lparr>w_now := t\<rparr>"
  | (rejected) "w_now w \<le> t"
      "uniform_sample (service_time_min (w_model w)) (service_time_max (w_model w)) service"
      "w' = w\<lparr>w_now := t, w_model := (w_model w)
          \<lparr>next_request_id := next_request_id (w_model w) + 1,
           rejected_requests := rejected_requests (w_model w) @
             [reject ((new_Request (next_request_id (w_model w)) t)\<lparr>service_time := Some service\<rparr>)
                ''queue_full'']\<rparr>\<rparr>"
  | (enqueued) "w_now w \<le> t"
      "uniform_sample (service_time_min (w_model w)) (service_time_max (w_model w)) service"
      "w' = w\<lparr>w_now := t, w_model := (w_model w)
          \<lparr>next_request_id := next_request_id (w_model w) + 1,
           queue := (queue (w_model w))\<lparr>items := items (queue (w_model w)) @
             [(new_Request (next_request_id (w_model w)) t)
                \<lparr>service_time := Some service, queue_entry_time := Some t\<rparr>]\<rparr>\<rparr>\<rparr>"
proof -
  from st have le: "w_now w \<le> t" and
    u: "uniform_sample (service_time_min (w_model w)) (service_time_max (w_model w)) service"
    by (auto split: if_splits)
  show ?thesis
  proof (cases "is_running (w_model w)")
    case False
    with st have "w' = w\<lparr>w_now := t\<rparr>" by (auto split: if_splits)
    with le show ?thesis using stopped by blast
  next
    case True
    obtain out m' where g: "request_generator_arrival simpy_put t service (w_model w) = (out, m')"
      by (cases "request_generator_arrival simpy_put t service (w_model w)") auto
    from g show ?thesis
    proof (cases rule: generator_arrival_cases)
      case (cap c)
      with st True g le u have "w' = w\<lparr>w_now := t, w_model := m'\<rparr>"
        by (auto split: if_splits)
      with cap le u show ?thesis using rejected by simp
    next
      case (stored q')
      from cap have "store_capacity (queue (w_model w)) =
          queue_capacity_of (max_requests_in_flight (w_model w))" by (simp add: capacity_ok_def)
      from room_below_cap(1) [OF this stored(1)] stored(2)
      have q': "q' = (queue (w_model w))\<lparr>items := items (queue (w_model w)) @
             [(new_Request (next_request_id (w_model w)) t)
                \<lparr>service_time := Some service, queue_entry_time := Some t\<rparr>]\<rparr>"
        by (simp add: simpy_put_room)
      from st True g le u stored(3) have "w' = w\<lparr>w_now := t, w_model := m'\<rparr>"
        by (auto split: if_splits)
      with stored q' le u show ?thesis using enqueued by simp
    next
      case pending
      from cap have "store_capacity (queue (w_model w)) =
          queue_capacity_of (max_requests_in_flight (w_model w))" by (simp add: capacity_ok_def)
      from room_below_cap(1) [OF this pending(1)] pending(2)
      show ?thesis by (simp add: simpy_put_room)
    next
      case raised
      then show ?thesis by (simp add: simpy_put_def split: if_splits)
    qed
  qed
qed

lemma step_Arrive_inv:
  assumes st: "step (Arrive t service) w = Inr w'"
    and ids: "ids_ok w" and sh: "shapes_ok w" and cap: "capacity_ok w"
  shows "ids_ok w' \<and> shapes_ok w' \<and> capacity_ok w'"
  using st cap
proof (cases rule: step_Arrive_cases)
  case stopped
  from shapes_ok_later [OF sh stopped(1)] ids cap stopped(2) show ?thesis
    by (simp add: ids_ok_def all_requests_def waiting_requests_def capacity_ok_def)
next
  case rejected
  from sh have t0: "0 \<le> t" using rejected(1) by (simp add: shapes_ok_def Let_def)
  note nr = new_request_shapes [OF t0 rejected(2), of "next_request_id (w_model w)"]
  have i: "ids_ok w'"
    using ids nr(5) upto_snoc [of "next_request_id (w_model w)"]
    by (simp add: rejected(3) ids_ok_def all_requests_def waiting_requests_def)
  have s: "shapes_ok w'"
    using shapes_ok_later [OF sh rejected(1)] nr(3)
    by (simp add: rejected(3) shapes_ok_def Let_def)
  have c: "capacity_ok w'"
    using cap by (simp add: rejected(3) capacity_ok_def)
  from i s c show ?thesis by simp
next
  case enqueued
  from sh have t0: "0 \<le> t" using enqueued(1) by (simp add: shapes_ok_def Let_def)
  note nr = new_request_shapes [OF t0 enqueued(2), of "next_request_id (w_model w)"]
  have i: "ids_ok w'"
    using ids nr(4) upto_snoc [of "next_request_id (w_model w)"]
    by (simp add: enqueued(3) ids_ok_def all_requests_def waiting_requests_def)
  have s: "shapes_ok w'"
    using shapes_ok_later [OF sh enqueued(1)] nr(1,2)
    by (simp add: enqueued(3) shapes_ok_def Let_def)
  have c: "capacity_ok w'"
    using cap by (simp add: enqueued(3) capacity_ok_def)
  from i s c show ?thesis by simp
qed

lemma step_Put_granted_inv:
  assumes st: "step Put_granted w = Inr w'" and cap: "capacity_ok w"
  shows "ids_ok w' \<and> shapes_ok w' \<and> capacity_ok w'"
  using st cap by (simp add: capacity_ok_def)

lemma processor_got_cases:
  assumes "single_request_processor_got now request m lb = (d, m', lb')"
  obtains
    (timed_out) "d = Timed_out"
      "m' = m\<lparr>rejected_requests := rejected_requests m @ [reject request ''wait_timeout'']\<rparr>"
  | (no_nodes) "d = No_nodes"
      "m' = m\<lparr>rejected_requests := rejected_requests m @ [reject request ''no_nodes'']\<rparr>"
  | (to_node) node where "d = To_node node" "m' = m"
      "select_node lb (get_active_nodes m) = (Some node, lb')"
proof (cases "case (max_wait_time m, queue_entry_time request) of
               (Some limit, Some entered) \<Rightarrow> now - entered > limit
             | _ \<Rightarrow> False")
  case True
  with assms show ?thesis using timed_out
    unfolding single_request_processor_got_def Let_def by simp
next
  case False
  obtain n lb2 where sel: "select_node lb (get_active_nodes m) = (n, lb2)"
    by (cases "select_node lb (get_active_nodes m)") auto
  show ?thesis
  proof (cases n)
    case None
    with assms False sel show ?thesis using no_nodes
      unfolding single_request_processor_got_def Let_def by simp
  next
    case (Some node)
    with assms False sel show ?thesis using to_node
      unfolding single_request_processor_got_def Let_def by simp
  qed
qed

lemma rejected_in_queue_shape:
  assumes "waiting_shape now r"
  shows "rejected_shape (reject r ''wait_timeout'')" and "rejected_shape (reject r ''no_nodes'')"
    and "request_id (reject r reason) = request_id r"
  using assms by (simp_all add: waiting_shape_def pending_shape_def rejected_shape_def reject_def)

lemma step_Worker_get_cases:
  assumes st: "step (Worker_get u) w = Inr w'"
  obtains
    (dropped) request rest reason lb' where
      "items (queue (w_model w)) = request # rest"
      "reason = ''wait_timeout'' \<or> reason = ''no_nodes''"
      "w' = w\<lparr>w_model := (w_model w)
                 \<lparr>queue := (queue (w_model w))\<lparr>items := rest\<rparr>,
                  rejected_requests := rejected_requests (w_model w) @ [reject request reason]\<rparr>,
               w_balancer := lb'\<rparr>"
  | (sent) request rest node lb' due where
      "items (queue (w_model w)) = request # rest" "w_now w \<le> due"
      "w' = w\<lparr>w_model := (w_model w)\<lparr>queue := (queue (w_model w))\<lparr>items := rest\<rparr>\<rparr>,
               w_balancer := lb',
               w_flights := w_flights w @
                 [\<lparr>fl_request = request, fl_node = node, fl_attached = True,
                   fl_phase = Net_delay due\<rparr>]\<rparr>"
proof -
  from st obtain request rest where it: "items (queue (w_model w)) = request # rest"
    by (cases "items (queue (w_model w))") auto
  let ?m1 = "(w_model w)\<lparr>queue := (queue (w_model w))\<lparr>items := rest\<rparr>\<rparr>"
  obtain d m' lb' where g:
    "single_request_processor_got (w_now w) request ?m1 (w_balancer w) = (d, m', lb')"
    by (cases "single_request_processor_got (w_now w) request ?m1 (w_balancer w)") auto
  from g show ?thesis
  proof (cases rule: processor_got_cases)
    case timed_out
    with st it g have "w' = w\<lparr>w_model := m', w_balancer := lb'\<rparr>"
      by (auto simp: Let_def split: if_splits)
    with timed_out have f3: "w' = w\<lparr>w_model := (w_model w)
                 \<lparr>queue := (queue (w_model w))\<lparr>items := rest\<rparr>,
                  rejected_requests := rejected_requests (w_model w) @
                    [reject request ''wait_timeout'']\<rparr>,
               w_balancer := lb'\<rparr>" by simp
    have f2: "''wait_timeout'' = ''wait_timeout'' \<or> ''wait_timeout'' = ''no_nodes''" by simp
    show ?thesis by (rule dropped [OF it f2 f3])
  next
    case no_nodes
    with st it g have "w' = w\<lparr>w_model := m', w_balancer := lb'\<rparr>"
      by (auto simp: Let_def split: if_splits)
    with no_nodes have f3: "w' = w\<lparr>w_model := (w_model w)
                 \<lparr>queue := (queue (w_model w))\<lparr>items := rest\<rparr>,
                  rejected_requests := rejected_requests (w_model w) @
                    [reject request ''no_nodes'']\<rparr>,
               w_balancer := lb'\<rparr>" by simp
    have f2: "''no_nodes'' = ''wait_timeout'' \<or> ''no_nodes'' = ''no_nodes''" by simp
    show ?thesis by (rule dropped [OF it f2 f3])
  next
    case (to_node node)
    with st it g obtain due where
      due: "timeout (w_now w) (generate_network_delay ?m1 u) = Inr due" and
      w': "w' = w\<lparr>w_model := m', w_balancer := lb',
               w_flights := w_flights w @
                 [\<lparr>fl_request = request, fl_node = node, fl_attached = True,
                   fl_phase = Net_delay due\<rparr>]\<rparr>"
      by (auto simp: Let_def split: if_splits sum.splits)
    from due have f2: "w_now w \<le> due" by (auto simp: timeout_def split: if_splits)
    from w' to_node have f3: "w' = w\<lparr>w_model := (w_model w)\<lparr>queue := (queue (w_model w))\<lparr>items := rest\<rparr>\<rparr>,
               w_balancer := lb',
               w_flights := w_flights w @
                 [\<lparr>fl_request = request, fl_node = node, fl_attached = True,
                   fl_phase = Net_delay due\<rparr>]\<rparr>" by simp
    show ?thesis by (rule sent [OF it f2 f3])
  qed
qed

lemma step_Worker_get_inv:
  assumes st: "step (Worker_get u) w = Inr w'"
    and ids: "ids_ok w" and sh: "shapes_ok w" and cap: "capacity_ok w"
  shows "ids_ok w' \<and> shapes_ok w' \<and> capacity_ok w'"
  using st
proof (cases rule: step_Worker_get_cases)
  case (dropped request rest reason lb')
  from sh dropped(1) have ws: "waiting_shape (w_now w) request"
    by (simp add: shapes_ok_def Let_def)
  note rj = rejected_in_queue_shape [OF ws]
  from dropped(2) rj have rs: "rejected_shape (reject request reason)" by auto
  have i: "ids_ok w'"
    using ids rj(3) [of reason]
    by (simp add: dropped(1,3) ids_ok_def all_requests_def waiting_requests_def)
  have s: "shapes_ok w'"
    using sh rs by (simp add: dropped(1,3) shapes_ok_def Let_def)
  have c: "capacity_ok w'"
    using cap by (simp add: dropped(3) capacity_ok_def)
  from i s c show ?thesis by simp
next
  case (sent request rest node lb' due)
  from sh sent(1) have ws: "waiting_shape (w_now w) request"
    and sa: "sampled (service_time_min (w_model w)) (service_time_max (w_model w)) request"
    by (simp_all add: shapes_ok_def Let_def)
  from ws sent(2) have fs: "flight_shape (w_now w)
      \<lparr>fl_request = request, fl_node = node, fl_attached = True, fl_phase = Net_delay due\<rparr>"
    by (simp add: flight_shape_def waiting_shape_def)
  have i: "ids_ok w'"
    using ids by (simp add: sent(1,3) ids_ok_def all_requests_def waiting_requests_def)
  have s: "shapes_ok w'"
    using sh fs sa by (simp add: sent(1,3) shapes_ok_def Let_def)
  have c: "capacity_ok w'"
    using cap by (simp add: sent(3) capacity_ok_def)
  from i s c show ?thesis by simp
qed

lemma map_update_same:
  "i < length xs \<Longrightarrow> g y = g (xs ! i) \<Longrightarrow> map g (xs[i := y]) = map g xs"
  by (simp add: map_update list_update_same_conv)

lemma ball_update:
  "\<forall>x\<in>set xs. P x \<Longrightarrow> P y \<Longrightarrow> \<forall>x\<in>set (xs[i := y]). P x"
  using set_update_subset_insert [of xs i y] by auto

lemma mset_remove_at:
  "i < length xs \<Longrightarrow> add_mset (xs ! i) (mset (remove_at i xs)) = mset xs"
proof -
  assume "i < length xs"
  then have "xs = take i xs @ xs ! i # drop (Suc i) xs" by (rule id_take_nth_drop)
  then have "mset xs = mset (take i xs @ xs ! i # drop (Suc i) xs)" by simp
  then show ?thesis by (simp add: remove_at_def)
qed

lemma map_remove_at: "map g (remove_at i xs) = remove_at i (map g xs)"
  by (simp add: remove_at_def take_map drop_map)

lemma set_remove_at: "set (remove_at i xs) \<subseteq> set xs"
  unfolding remove_at_def using set_take_subset [of i xs] set_drop_subset [of "Suc i" xs] by auto

lemma all_request_ids:
  "map request_id (all_requests w) =
     map request_id (items (queue (w_model w))) @
     map request_id (case w_pending_put w of None \<Rightarrow> [] | Some r \<Rightarrow> [r]) @
     map request_id (map fl_request (w_flights w)) @
     map request_id (processed_requests (w_model w)) @
     map request_id (rejected_requests (w_model w))"
  by (simp add: all_requests_def waiting_requests_def)

lemma ids_ok_same:
  assumes "ids_ok w" and "next_request_id (w_model w') = next_request_id (w_model w)"
    and "mset (map request_id (all_requests w')) = mset (map request_id (all_requests w))"
  shows "ids_ok w'"
  using assms by (simp add: ids_ok_def)

lemma flights_update_ids:
  "i < length fs \<Longrightarrow> request_id (fl_request f') = request_id (fl_request (fs ! i)) \<Longrightarrow>
   map request_id (map fl_request (fs[i := f'])) = map request_id (map fl_request fs)"
  by (simp add: map_update list_update_same_conv)

lemma step_Net_done_cases:
  assumes st: "step (Net_done i) w = Inr w'"
  obtains due where "i < length (w_flights w)" "fl_phase (w_flights w ! i) = Net_delay due"
    "w_now w \<le> due"
    "w' = w\<lparr>w_now := due,
            w_flights := (w_flights w)
              [i := (w_flights w ! i)
                 \<lparr>fl_request := process_request_start (fl_node (w_flights w ! i)) due
                                  (fl_request (w_flights w ! i)),
                  fl_phase := Slot_wait\<rparr>]\<rparr>"
  using st by (auto simp: Let_def split: if_splits phase.splits)

lemma step_Net_done_inv:
  assumes st: "step (Net_done i) w = Inr w'"
    and ids: "ids_ok w" and sh: "shapes_ok w" and cap: "capacity_ok w"
  shows "ids_ok w' \<and> shapes_ok w' \<and> capacity_ok w'"
  using st
proof (cases rule: step_Net_done_cases)
  case (1 due)
  let ?f = "w_flights w ! i"
  let ?f' = "?f\<lparr>fl_request := process_request_start (fl_node ?f) due (fl_request ?f),
                fl_phase := Slot_wait\<rparr>"
  from 1(1) have mem: "?f \<in> set (w_flights w)" by simp
  with sh have fs: "flight_shape (w_now w) ?f"
    and sa: "sampled (service_time_min (w_model w)) (service_time_max (w_model w)) (fl_request ?f)"
    by (simp_all add: shapes_ok_def Let_def)
  have rid: "request_id (fl_request ?f') = request_id (fl_request ?f)"
    by (simp add: process_request_start_def)
  have e1: "map request_id (map fl_request ((w_flights w)[i := ?f'])) =
      map request_id (map fl_request (w_flights w))"
    by (rule flights_update_ids [OF 1(1) rid])
  have parts: "w_flights w' = (w_flights w)[i := ?f']" "w_model w' = w_model w"
    "w_pending_put w' = w_pending_put w"
    by (simp_all add: 1(4))
  have "map request_id (all_requests w') = map request_id (all_requests w)"
    by (simp only: all_request_ids parts e1)
  then have "mset (map request_id (all_requests w')) = mset (map request_id (all_requests w))"
    by (simp only:)
  with ids parts(2) have i: "ids_ok w'" by (simp only: ids_ok_def)
  from fs 1(2) have fs': "flight_shape due ?f'"
    by (simp add: flight_shape_def pending_shape_def process_request_start_def)
  from sa have sa': "sampled (service_time_min (w_model w)) (service_time_max (w_model w))
      (fl_request ?f')"
    by (simp add: sampled_def process_request_start_def)
  from shapes_ok_later [OF sh 1(3)]
  have later: "\<forall>f\<in>set (w_flights w). flight_shape due f \<and>
      sampled (service_time_min (w_model w)) (service_time_max (w_model w)) (fl_request f)"
    by (simp add: shapes_ok_def Let_def)
  from ball_update [OF later, of ?f' i] fs' sa'
  have fl: "\<forall>f\<in>set ((w_flights w)[i := ?f']). flight_shape due f \<and>
      sampled (service_time_min (w_model w)) (service_time_max (w_model w)) (fl_request f)"
    by simp
  have s: "shapes_ok w'"
    using shapes_ok_later [OF sh 1(3)] fl by (simp add: 1(4) shapes_ok_def Let_def)
  have c: "capacity_ok w'"
    using cap by (simp add: 1(4) capacity_ok_def)
  from i s c show ?thesis by simp
qed

lemma frame_fields:
  assumes "m' = m\<lparr>nodes := ns\<rparr>"
  shows "queue m' = queue m" and "processed_requests m' = processed_requests m"
    and "rejected_requests m' = rejected_requests m"
    and "next_request_id m' = next_request_id m"
    and "service_time_min m' = service_time_min m" and "service_time_max m' = service_time_max m"
    and "max_requests_in_flight m' = max_requests_in_flight m"
  using assms by simp_all

lemma acquire_slot_frame: "acquire_slot k rid m = m\<lparr>nodes := nodes (acquire_slot k rid m)\<rparr>"
  by (simp add: acquire_slot_def)

lemma release_slot_frame: "release_slot k rid m = m\<lparr>nodes := nodes (release_slot k rid m)\<rparr>"
  by (simp add: release_slot_def)

lemma step_Slot_granted_cases:
  assumes st: "step (Slot_granted i) w = Inr w'"
  obtains service m2 where "i < length (w_flights w)"
    "fl_phase (w_flights w ! i) = Slot_wait"
    "service_time (fl_request (w_flights w ! i)) = Some service" "0 \<le> service"
    "m2 = (w_model w)\<lparr>nodes := nodes m2\<rparr>"
    "w' = w\<lparr>w_model := m2,
            w_flights := (w_flights w)
              [i := (w_flights w ! i)\<lparr>fl_phase := In_service (w_now w + service)\<rparr>]\<rparr>"
proof -
  let ?f = "w_flights w ! i"
  let ?k = "pool_index (fl_node ?f)"
  let ?m2 = "if fl_attached ?f then acquire_slot ?k (request_id (fl_request ?f)) (w_model w)
             else w_model w"
  from st have len: "i < length (w_flights w)" by (auto split: if_splits)
  from st len have ph: "fl_phase ?f = Slot_wait"
    by (auto simp: Let_def split: if_splits phase.splits)
  from st len ph obtain service where sv: "service_time (fl_request ?f) = Some service"
    by (cases "service_time (fl_request ?f)") (auto simp: Let_def split: if_splits)
  from st len ph sv have pos: "0 \<le> service"
    by (auto simp: Let_def timeout_def split: if_splits)
  from st len ph sv pos have w': "w' = w\<lparr>w_model := ?m2,
            w_flights := (w_flights w)[i := ?f\<lparr>fl_phase := In_service (w_now w + service)\<rparr>]\<rparr>"
    by (auto simp: Let_def timeout_def split: if_splits)
  have fr: "?m2 = (w_model w)\<lparr>nodes := nodes ?m2\<rparr>"
    using acquire_slot_frame [of ?k "request_id (fl_request ?f)" "w_model w"]
    by (cases "fl_attached ?f") simp_all
  show ?thesis by (rule that [OF len ph sv pos fr w'])
qed

lemma step_Slot_granted_inv:
  assumes st: "step (Slot_granted i) w = Inr w'"
    and ids: "ids_ok w" and sh: "shapes_ok w" and cap: "capacity_ok w"
  shows "ids_ok w' \<and> shapes_ok w' \<and> capacity_ok w'"
  using st
proof (cases rule: step_Slot_granted_cases)
  case (1 service m2)
  let ?f = "w_flights w ! i"
  let ?f' = "?f\<lparr>fl_phase := In_service (w_now w + service)\<rparr>"
  note fr = frame_fields [OF 1(5)]
  from 1(1) have mem: "?f \<in> set (w_flights w)" by simp
  with sh have fs: "flight_shape (w_now w) ?f"
    and sa: "sampled (service_time_min (w_model w)) (service_time_max (w_model w)) (fl_request ?f)"
    by (simp_all add: shapes_ok_def Let_def)
  have rid: "request_id (fl_request ?f') = request_id (fl_request ?f)" by simp
  have e1: "map request_id (map fl_request ((w_flights w)[i := ?f'])) =
      map request_id (map fl_request (w_flights w))"
    by (rule flights_update_ids [OF 1(1) rid])
  have parts: "w_flights w' = (w_flights w)[i := ?f']" "w_model w' = m2"
    "w_pending_put w' = w_pending_put w" "w_now w' = w_now w"
    by (simp_all add: 1(6))
  have "map request_id (all_requests w') = map request_id (all_requests w)"
    by (simp only: all_request_ids parts fr e1)
  then have "mset (map request_id (all_requests w')) = mset (map request_id (all_requests w))"
    by (simp only:)
  with ids parts(2) fr(4) have i: "ids_ok w'" by (simp only: ids_ok_def)
  from fs 1(2,3,4) have fs': "flight_shape (w_now w) ?f'"
    by (auto simp: flight_shape_def split: option.splits)
  from sa have sa': "sampled (service_time_min (w_model w)) (service_time_max (w_model w))
      (fl_request ?f')" by simp
  from sh have all: "\<forall>f\<in>set (w_flights w). flight_shape (w_now w) f \<and>
      sampled (service_time_min (w_model w)) (service_time_max (w_model w)) (fl_request f)"
    by (simp add: shapes_ok_def Let_def)
  from ball_update [OF all, of ?f' i] fs' sa'
  have fl: "\<forall>f\<in>set ((w_flights w)[i := ?f']). flight_shape (w_now w) f \<and>
      sampled (service_time_min (w_model w)) (service_time_max (w_model w)) (fl_request f)"
    by simp
  have s: "shapes_ok w'"
    using sh fl unfolding shapes_ok_def Let_def parts fr by simp
  have c: "capacity_ok w'"
    using cap unfolding capacity_ok_def parts fr by simp
  from i s c show ?thesis by simp
qed

lemma step_Service_done_cases:
  assumes st: "step (Service_done i) w = Inr w'"
  obtains due m1 where "i < length (w_flights w)"
    "fl_phase (w_flights w ! i) = In_service due" "w_now w \<le> due"
    "m1 = (w_model w)\<lparr>nodes := nodes m1\<rparr>"
    "w' = w\<lparr>w_now := due,
            w_model := m1\<lparr>processed_requests := processed_requests m1 @
              [process_request_finish due (fl_request (w_flights w ! i))]\<rparr>,
            w_flights := remove_at i (w_flights w)\<rparr>"
proof -
  let ?f = "w_flights w ! i"
  let ?k = "pool_index (fl_node ?f)"
  let ?m1 = "if fl_attached ?f then release_slot ?k (request_id (fl_request ?f)) (w_model w)
             else w_model w"
  from st have len: "i < length (w_flights w)" by (auto split: if_splits)
  from st len obtain due where ph: "fl_phase ?f = In_service due"
    by (cases "fl_phase ?f") (auto simp: Let_def split: if_splits)
  from st len ph have le: "w_now w \<le> due"
    by (auto simp: Let_def split: if_splits)
  from st len ph le have w': "w' = w\<lparr>w_now := due,
            w_model := ?m1\<lparr>processed_requests := processed_requests ?m1 @
              [process_request_finish due (fl_request ?f)]\<rparr>,
            w_flights := remove_at i (w_flights w)\<rparr>"
    by (auto simp: Let_def split: if_splits)
  have fr: "?m1 = (w_model w)\<lparr>nodes := nodes ?m1\<rparr>"
    using release_slot_frame [of ?k "request_id (fl_request ?f)" "w_model w"]
    by (cases "fl_attached ?f") simp_all
  show ?thesis by (rule that [OF len ph le fr w'])
qed

lemma ids_after_finish:
  assumes len: "i < length fs" and rid: "request_id fin = request_id (fl_request (fs ! i))"
  shows "mset (map request_id (map fl_request (remove_at i fs))) +
           mset (map request_id (ps @ [fin])) =
         mset (map request_id (map fl_request fs)) + mset (map request_id ps)"
proof -
  from mset_remove_at [OF len] have "mset fs = add_mset (fs ! i) (mset (remove_at i fs))"
    by simp
  then show ?thesis by (simp add: rid)
qed

lemma finished_shape:
  assumes "flight_shape now f" and "fl_phase f = In_service due"
  shows "processed_shape (process_request_finish due (fl_request f))"
  using assms
  by (auto simp: flight_shape_def processed_shape_def pending_shape_def
      process_request_finish_def split: option.splits)

lemma step_Service_done_inv:
  assumes st: "step (Service_done i) w = Inr w'"
    and ids: "ids_ok w" and sh: "shapes_ok w" and cap: "capacity_ok w"
  shows "ids_ok w' \<and> shapes_ok w' \<and> capacity_ok w'"
  using st
proof (cases rule: step_Service_done_cases)
  case (1 due m1)
  let ?f = "w_flights w ! i"
  let ?fin = "process_request_finish due (fl_request ?f)"
  note fr = frame_fields [OF 1(4)]
  from 1(1) have mem: "?f \<in> set (w_flights w)" by simp
  with sh have fs: "flight_shape (w_now w) ?f"
    and sa: "sampled (service_time_min (w_model w)) (service_time_max (w_model w)) (fl_request ?f)"
    by (simp_all add: shapes_ok_def Let_def)
  have rid: "request_id ?fin = request_id (fl_request ?f)"
    by (simp add: process_request_finish_def)
  have "mset (map request_id (all_requests w')) =
      mset (map request_id (items (queue (w_model w)))) +
      mset (map request_id (case w_pending_put w of None \<Rightarrow> [] | Some r \<Rightarrow> [r])) +
      (mset (map request_id (map fl_request (remove_at i (w_flights w)))) +
       mset (map request_id (processed_requests (w_model w) @ [?fin]))) +
      mset (map request_id (rejected_requests (w_model w)))"
    by (simp add: all_requests_def waiting_requests_def 1(5) fr)
  also have "\<dots> =
      mset (map request_id (items (queue (w_model w)))) +
      mset (map request_id (case w_pending_put w of None \<Rightarrow> [] | Some r \<Rightarrow> [r])) +
      (mset (map request_id (map fl_request (w_flights w))) +
       mset (map request_id (processed_requests (w_model w)))) +
      mset (map request_id (rejected_requests (w_model w)))"
    by (simp only: ids_after_finish [OF 1(1) rid])
  also have "\<dots> = mset (map request_id (all_requests w))"
    by (simp add: all_requests_def waiting_requests_def)
  finally have e: "mset (map request_id (all_requests w')) = mset (map request_id (all_requests w))" .
  have nx: "next_request_id (w_model w') = next_request_id (w_model w)"
    by (simp add: 1(5) fr)
  from ids e nx have i: "ids_ok w'" by (simp only: ids_ok_def)
  note ps = finished_shape [OF fs 1(2)]
  from sa have sa': "sampled (service_time_min (w_model w)) (service_time_max (w_model w)) ?fin"
    by (simp add: sampled_def process_request_finish_def)
  from shapes_ok_later [OF sh 1(3)]
  have later: "shapes_ok (w\<lparr>w_now := due\<rparr>)" .
  then have fl: "\<forall>f\<in>set (remove_at i (w_flights w)). flight_shape due f \<and>
      sampled (service_time_min (w_model w)) (service_time_max (w_model w)) (fl_request f)"
    using set_remove_at [of i "w_flights w"] by (auto simp: shapes_ok_def Let_def)
  have s: "shapes_ok w'"
    using later fl ps sa' by (simp add: 1(5) fr shapes_ok_def Let_def)
  have c: "capacity_ok w'"
    using cap by (simp add: 1(5) fr capacity_ok_def)
  from i s c show ?thesis by simp
qed

lemma detach_requests: "map fl_request (detach k fs) = map fl_request fs"
  by (induction fs) (simp_all add: detach_def)

lemma flight_shape_attached: "flight_shape t (f\<lparr>fl_attached := b\<rparr>) = flight_shape t f"
  by (cases "fl_phase f") (auto simp: flight_shape_def split: option.splits)

lemma detach_shapes:
  "\<forall>f\<in>set fs. flight_shape t f \<and> sampled low high (fl_request f) \<Longrightarrow>
   \<forall>f\<in>set (detach k fs). flight_shape t f \<and> sampled low high (fl_request f)"
  by (auto simp: detach_def flight_shape_attached)

lemma step_Control_pass_cases:
  assumes st: "step (Control_pass t) w = Inr w'"
  obtains m' s' fs' where "w_now w \<le> t" "m' = (w_model w)\<lparr>nodes := nodes m'\<rparr>"
    "fs' = w_flights w \<or> (\<exists>k. fs' = detach k (w_flights w))"
    "w' = w\<lparr>w_now := t, w_model := m', w_scaler := s', w_flights := fs'\<rparr>"
proof -
  from st have le: "w_now w \<le> t" by (auto split: if_splits)
  from st le obtain a m' s' where
    cp: "control_loop_pass t (w_model w) (w_scaler w) = Inr (a, m', s')"
    by (cases "control_loop_pass t (w_model w) (w_scaler w)") (auto split: if_splits)
  let ?fs' = "if length (nodes m') < length (nodes (w_model w))
              then detach (int (length (nodes m'))) (w_flights w) else w_flights w"
  from st le cp have w': "w' = w\<lparr>w_now := t, w_model := m', w_scaler := s', w_flights := ?fs'\<rparr>"
    by (auto split: if_splits)
  have d: "?fs' = w_flights w \<or> (\<exists>k. ?fs' = detach k (w_flights w))" by auto
  show ?thesis by (rule that [OF le control_loop_pass_frame [OF cp] d w'])
qed

lemma step_Control_pass_inv:
  assumes st: "step (Control_pass t) w = Inr w'"
    and ids: "ids_ok w" and sh: "shapes_ok w" and cap: "capacity_ok w"
  shows "ids_ok w' \<and> shapes_ok w' \<and> capacity_ok w'"
  using st
proof (cases rule: step_Control_pass_cases)
  case (1 m' s' fs')
  note fr = frame_fields [OF 1(2)]
  from 1(3) have rq: "map fl_request fs' = map fl_request (w_flights w)"
    by (auto simp: detach_requests)
  have i: "ids_ok w'"
    using ids by (simp add: 1(4) fr rq ids_ok_def all_requests_def waiting_requests_def)
  from shapes_ok_later [OF sh 1(1)]
  have later: "shapes_ok (w\<lparr>w_now := t\<rparr>)" .
  then have all: "\<forall>f\<in>set (w_flights w). flight_shape t f \<and>
      sampled (service_time_min (w_model w)) (service_time_max (w_model w)) (fl_request f)"
    by (simp add: shapes_ok_def Let_def)
  from 1(3) all detach_shapes [OF all]
  have fl: "\<forall>f\<in>set fs'. flight_shape t f \<and>
      sampled (service_time_min (w_model w)) (service_time_max (w_model w)) (fl_request f)"
    by blast
  have s: "shapes_ok w'"
    using later fl by (simp add: 1(4) fr shapes_ok_def Let_def)
  have c: "capacity_ok w'"
    using cap by (simp add: 1(4) fr capacity_ok_def)
  from i s c show ?thesis by simp
qed

lemma step_Sample_inv:
  assumes st: "step (Sample t) w = Inr w'"
    and ids: "ids_ok w" and sh: "shapes_ok w" and cap: "capacity_ok w"
  shows "ids_ok w' \<and> shapes_ok w' \<and> capacity_ok w'"
proof -
  from st have le: "w_now w \<le> t"
    and w': "w' = w\<lparr>w_now := t, w_scaler := metrics_collector_sample t (w_model w) (w_scaler w)\<rparr>"
    by (auto split: if_splits)
  have i: "ids_ok w'"
    using ids by (simp add: w' ids_ok_def all_requests_def waiting_requests_def)
  have s: "shapes_ok w'"
    using shapes_ok_later [OF sh le] by (simp add: w' shapes_ok_def Let_def)
  have c: "capacity_ok w'"
    using cap by (simp add: w' capacity_ok_def)
  from i s c show ?thesis by simp
qed

lemma step_Stop_inv:
  assumes st: "step Stop w = Inr w'"
    and ids: "ids_ok w" and sh: "shapes_ok w" and cap: "capacity_ok w"
  shows "ids_ok w' \<and> shapes_ok w' \<and> capacity_ok w'"
proof -
  from st have w': "w' = w\<lparr>w_model := (w_model w)\<lparr>is_running := False\<rparr>,
            w_scaler := (w_scaler w)\<lparr>as_is_running := False\<rparr>\<rparr>"
    by simp
  have i: "ids_ok w'"
    using ids by (simp add: w' ids_ok_def all_requests_def waiting_requests_def)
  have s: "shapes_ok w'"
    using sh by (simp add: w' shapes_ok_def Let_def)
  have c: "capacity_ok w'"
    using cap by (simp add: w' capacity_ok_def)
  from i s c show ?thesis by simp
qed

lemma step_inv:
  assumes st: "step e w = Inr w'"
    and ids: "ids_ok w" and sh: "shapes_ok w" and cap: "capacity_ok w"
  shows "ids_ok w' \<and> shapes_ok w' \<and> capacity_ok w'"
proof (cases e)
  case (Arrive t service)
  with st ids sh cap show ?thesis using step_Arrive_inv by blast
next
  case Put_granted
  with st cap show ?thesis using step_Put_granted_inv by blast
next
  case (Worker_get u)
  with st ids sh cap show ?thesis using step_Worker_get_inv by blast
next
  case (Net_done i)
  with st ids sh cap show ?thesis using step_Net_done_inv by blast
next
  case (Slot_granted i)
  with st ids sh cap show ?thesis using step_Slot_granted_inv by blast
next
  case (Service_done i)
  with st ids sh cap show ?thesis using step_Service_done_inv by blast
next
  case (Control_pass t)
  with st ids sh cap show ?thesis using step_Control_pass_inv by blast
next
  case (Sample t)
  with st ids sh cap show ?thesis using step_Sample_inv by blast
next
  case Stop
  with st ids sh cap show ?thesis using step_Stop_inv by blast
qed

lemma run_inv:
  "run evs w = Inr w' \<Longrightarrow> ids_ok w \<Longrightarrow> shapes_ok w \<Longrightarrow> capacity_ok w \<Longrightarrow>
   ids_ok w' \<and> shapes_ok w' \<and> capacity_ok w'"
proof (induction evs arbitrary: w)
  case Nil
  then show ?case by simp
next
  case (Cons e evs)
  from Cons.prems(1) obtain w1 where st: "step e w = Inr w1" and rest: "run evs w1 = Inr w'"
    by (cases "step e w") auto
  from step_inv [OF st Cons.prems(2,3,4)]
  have "ids_ok w1" "shapes_ok w1" "capacity_ok w1" by simp_all
  from Cons.IH [OF rest this] show ?case .
qed

lemma start_world_inv:
  assumes "fresh m"
  shows "ids_ok (start_world m s) \<and> shapes_ok (start_world m s) \<and> capacity_ok (start_world m s)"
  using assms
  by (simp add: fresh_def start_world_def ids_ok_def shapes_ok_def capacity_ok_def
      all_requests_def waiting_requests_def)

section \<open>Properties of a run\<close>



lemma capped_fresh: "fresh capped_model"
  by (simp add: fresh_def capped_model_def demo_model_def queue_capacity_of_def)

lemma reachable_inv:
  assumes "fresh m" and "run evs (start_world m s) = Inr w"
  shows "ids_ok w" and "shapes_ok w" and "capacity_ok w"
proof -
  from start_world_inv [OF assms(1), of s]
  have "ids_ok (start_world m s)" "shapes_ok (start_world m s)" "capacity_ok (start_world m s)"
    by simp_all
  from run_inv [OF assms(2) this]
  show "ids_ok w" and "shapes_ok w" and "capacity_ok w" by simp_all
qed

lemma ids_ok_distinct:
  assumes "ids_ok w"
  shows "distinct (map request_id (all_requests w))"
    and "int (length (all_requests w)) = next_request_id (w_model w)"
proof -
  let ?n = "next_request_id (w_model w)"
  from assms have n0: "0 \<le> ?n"
    and ms: "mset (map request_id (all_requests w)) = mset [0..?n - 1]"
    by (simp_all add: ids_ok_def)
  from ms have "distinct (map request_id (all_requests w)) = distinct [0..?n - 1]"
    by (rule mset_eq_imp_distinct_iff)
  then show "distinct (map request_id (all_requests w))" by simp
  from ms have "length (map request_id (all_requests w)) = length [0..?n - 1]"
    by (rule mset_eq_length)
  with n0 show "int (length (all_requests w)) = ?n" by simp
qed

lemma processed_shape_facts:
  assumes "processed_shape r"
  shows "\<exists>entered started finished service.
           queue_entry_time r = Some entered \<and> start_time r = Some started \<and>
           finish_time r = Some finished \<and> service_time r = Some service \<and>
           0 \<le> arrival_time r \<and> entered = arrival_time r \<and> entered \<le> started \<and>
           0 \<le> service \<and> started + service \<le> finished \<and>
           get_response_time r = Some (finished - arrival_time r) \<and> \<not> rejected r"
  using assms
  by (auto simp: processed_shape_def get_response_time_def split: option.splits)

text \<open>The two runs, evaluated.\<close>

lemmas run_defs =
  start_world_def demo_model_def demo_scaler_def new_LoadBalancer_def new_StorageNode_def
  new_Request_def request_generator_arrival_def simpy_put_def has_room_def
  single_request_processor_got_def select_node_def get_active_nodes_def timeout_def
  generate_network_delay_def uniform_sample_def process_request_start_def
  process_request_finish_def pool_index_def acquire_slot_def release_slot_def remove_at_def
  current_in_system_def reject_def Let_def

lemma in_service_run_value:
  "\<exists>w. in_service_run = Inr w \<and>
       w_now w = 9/10 \<and> next_request_id (w_model w) = 1 \<and>
       processed_requests (w_model w) = [] \<and> rejected_requests (w_model w) = [] \<and>
       items (queue (w_model w)) = [] \<and>
       map fl_phase (w_flights w) = [In_service (14/10)]"
  unfolding in_service_run_def by (simp add: capped_model_def run_defs)

lemma completed_run_value:
  "\<exists>w. completed_run = Inr w \<and>
       processed_requests (w_model w) =
         [\<lparr>request_id = 0, arrival_time = 1, queue_entry_time = Some 1, start_time = Some 1,
           finish_time = Some (3/2), node_id = Some 0, rejected = False,
           rejected_reason = None, service_time = Some (1/2)\<rparr>] \<and>
       service_time_min (w_model w) = 1/2 \<and> service_time_max (w_model w) = 2"
  unfolding completed_run_def by (simp add: capped_model_def run_defs)


text \<open>
  C1, as the code has it. In every state that a run reaches from a model as its constructor
  leaves it, the requests generated so far have pairwise different ids and each is in exactly
  one place: the processed list, the rejected list, or still waiting (in the queue or on its
  way through a node). The sizes of the three add up to the number of requests generated;
  the processed and the rejected list have no request in common; a processed request has its
  \<open>finish_time\<close> set and is not marked rejected, a rejected request is marked rejected and
  has neither \<open>start_time\<close> nor \<open>finish_time\<close>, a waiting request has neither outcome. The
  sizes of the two lists add up to the number generated exactly when no request is waiting.
\<close>

theorem requests_accounted_for:
  assumes "fresh m" and "run evs (start_world m s) = Inr w"
  shows "distinct (map request_id (all_requests w)) \<and>
     int (length (processed_requests (w_model w))) +
       int (length (rejected_requests (w_model w))) +
       int (length (waiting_requests w)) = next_request_id (w_model w) \<and>
     set (processed_requests (w_model w)) \<inter> set (rejected_requests (w_model w)) = {} \<and>
     (\<forall>r\<in>set (processed_requests (w_model w)). finish_time r \<noteq> None \<and> \<not> rejected r) \<and>
     (\<forall>r\<in>set (rejected_requests (w_model w)).
        rejected r \<and> finish_time r = None \<and> start_time r = None) \<and>
     (\<forall>r\<in>set (waiting_requests w). finish_time r = None \<and> \<not> rejected r) \<and>
     (int (length (processed_requests (w_model w))) +
        int (length (rejected_requests (w_model w))) = next_request_id (w_model w)
      \<longleftrightarrow> waiting_requests w = [])"
proof -
  note inv = reachable_inv [OF assms]
  note d = ids_ok_distinct [OF inv(1)]
  from d(1) have dis: "distinct (map request_id (all_requests w))" .
  from d(2) have cnt: "int (length (processed_requests (w_model w))) +
       int (length (rejected_requests (w_model w))) +
       int (length (waiting_requests w)) = next_request_id (w_model w)"
    by (simp add: all_requests_def)
  from dis have "distinct (map request_id
      (processed_requests (w_model w) @ rejected_requests (w_model w)))"
    by (simp add: all_requests_def)
  then have "distinct (processed_requests (w_model w) @ rejected_requests (w_model w))"
    by (simp only: distinct_map)
  then have disj: "set (processed_requests (w_model w)) \<inter> set (rejected_requests (w_model w)) = {}"
    by simp
  from inv(2) have p: "\<forall>r\<in>set (processed_requests (w_model w)). processed_shape r"
    and rj: "\<forall>r\<in>set (rejected_requests (w_model w)). rejected_shape r"
    and it: "\<forall>r\<in>set (items (queue (w_model w))). waiting_shape (w_now w) r"
    and fl: "\<forall>f\<in>set (w_flights w). flight_shape (w_now w) f"
    by (simp_all add: shapes_ok_def Let_def)
  from inv(3) have pn: "w_pending_put w = None" by (simp add: capacity_ok_def)
  from p have pf: "\<forall>r\<in>set (processed_requests (w_model w)). finish_time r \<noteq> None \<and> \<not> rejected r"
    using processed_shape_facts by fastforce
  from rj have rf: "\<forall>r\<in>set (rejected_requests (w_model w)).
        rejected r \<and> finish_time r = None \<and> start_time r = None"
    by (simp add: rejected_shape_def)
  from it fl pn have wf: "\<forall>r\<in>set (waiting_requests w). finish_time r = None \<and> \<not> rejected r"
    by (auto simp: waiting_requests_def waiting_shape_def flight_shape_def pending_shape_def)
  from cnt have iff: "int (length (processed_requests (w_model w))) +
        int (length (rejected_requests (w_model w))) = next_request_id (w_model w)
      \<longleftrightarrow> waiting_requests w = []"
    by auto
  from dis cnt disj pf rf wf iff show ?thesis by blast
qed

text \<open>
  C1 as stated fails: the run stops at a time, not when the requests are done. In the run
  that ends at time 0.9 with its one request in service until 1.4, one request has been
  generated and both lists are empty.
\<close>

theorem request_in_service_in_neither_list:
  "\<not> isl in_service_run \<and>
   next_request_id (w_model (projr in_service_run)) = 1 \<and>
   processed_requests (w_model (projr in_service_run)) = [] \<and>
   rejected_requests (w_model (projr in_service_run)) = [] \<and>
   map fl_phase (w_flights (projr in_service_run)) = [In_service (14/10)] \<and>
   w_now (projr in_service_run) = 9/10"
proof -
  from in_service_run_value obtain w where e: "in_service_run = Inr w"
    and f: "w_now w = 9/10" "next_request_id (w_model w) = 1"
      "processed_requests (w_model w) = []" "rejected_requests (w_model w) = []"
      "map fl_phase (w_flights w) = [In_service (14/10)]"
    by auto
  from f show ?thesis unfolding e by simp
qed

theorem requests_accounted_for_witness:
  "fresh capped_model \<and> \<not> isl in_service_run \<and>
   distinct (map request_id (all_requests (projr in_service_run))) \<and>
   int (length (processed_requests (w_model (projr in_service_run)))) +
     int (length (rejected_requests (w_model (projr in_service_run)))) +
     int (length (waiting_requests (projr in_service_run))) =
       next_request_id (w_model (projr in_service_run)) \<and>
   length (waiting_requests (projr in_service_run)) = 1"
proof -
  from in_service_run_value obtain w where e: "in_service_run = Inr w"
    and f: "next_request_id (w_model w) = 1"
      "processed_requests (w_model w) = []" "rejected_requests (w_model w) = []"
    by blast
  from e have r: "run [Arrive (9/10) (1/2), Worker_get 0, Net_done 0, Slot_granted 0]
      (start_world capped_model demo_scaler) = Inr w"
    by (simp only: in_service_run_def)
  note t = requests_accounted_for [OF capped_fresh r]
  from t have d: "distinct (map request_id (all_requests w))" by (rule conjunct1)
  from t have c: "int (length (processed_requests (w_model w))) +
       int (length (rejected_requests (w_model w))) +
       int (length (waiting_requests w)) = next_request_id (w_model w)"
    by blast
  from c f have l: "length (waiting_requests w) = 1" by simp
  from d c l capped_fresh show ?thesis unfolding e by simp
qed

text \<open>
  C7, as the code has it. A processed request of a run has all four timestamps and its
  service time, with \<open>0 \<le> arrival_time = queue_entry_time \<le> start_time\<close> and
  \<open>start_time + service_time \<le> finish_time\<close>, and \<open>get_response_time\<close> returns
  \<open>finish_time - arrival_time\<close>. When both bounds of the service time are positive,
  \<open>start_time < finish_time\<close>. (Times are read as real numbers.)
\<close>

theorem completed_request_timestamps:
  assumes "fresh m" and "run evs (start_world m s) = Inr w"
    and "r \<in> set (processed_requests (w_model w))"
  shows "\<exists>entered started finished service.
           queue_entry_time r = Some entered \<and> start_time r = Some started \<and>
           finish_time r = Some finished \<and> service_time r = Some service \<and>
           0 \<le> arrival_time r \<and> entered = arrival_time r \<and> entered \<le> started \<and>
           0 \<le> service \<and> started + service \<le> finished \<and>
           get_response_time r = Some (finished - arrival_time r) \<and> \<not> rejected r \<and>
           (0 < service_time_min (w_model w) \<and> 0 < service_time_max (w_model w) \<longrightarrow>
              0 < service \<and> started < finished)"
proof -
  note inv = reachable_inv [OF assms(1,2)]
  from inv(2) assms(3) have p: "processed_shape r"
    and sa: "sampled (service_time_min (w_model w)) (service_time_max (w_model w)) r"
    by (simp_all add: shapes_ok_def Let_def)
  from processed_shape_facts [OF p] obtain entered started finished service where
    f: "queue_entry_time r = Some entered" "start_time r = Some started"
      "finish_time r = Some finished" "service_time r = Some service"
      "0 \<le> arrival_time r" "entered = arrival_time r" "entered \<le> started"
      "0 \<le> service" "started + service \<le> finished"
      "get_response_time r = Some (finished - arrival_time r)" "\<not> rejected r"
    by blast
  have strict: "0 < service_time_min (w_model w) \<and> 0 < service_time_max (w_model w) \<longrightarrow>
              0 < service \<and> started < finished"
    using sa f(4,9) by (auto simp: sampled_def uniform_sample_def)
  from f strict show ?thesis by blast
qed

text \<open>
  C7 as stated fails in \<open>start_time > queue_entry_time\<close>: with the network delay 0 (both
  bounds 0) and an idle worker, the request that arrives at time 1 enters the queue at 1
  and starts at 1; it finishes at 1.5.
\<close>

theorem service_may_start_on_entry:
  "\<not> isl completed_run \<and>
   map arrival_time (processed_requests (w_model (projr completed_run))) = [1] \<and>
   map queue_entry_time (processed_requests (w_model (projr completed_run))) = [Some 1] \<and>
   map start_time (processed_requests (w_model (projr completed_run))) = [Some 1] \<and>
   map finish_time (processed_requests (w_model (projr completed_run))) = [Some (3/2)]"
proof -
  from completed_run_value obtain w where e: "completed_run = Inr w"
    and f: "processed_requests (w_model w) =
         [\<lparr>request_id = 0, arrival_time = 1, queue_entry_time = Some 1, start_time = Some 1,
           finish_time = Some (3/2), node_id = Some 0, rejected = False,
           rejected_reason = None, service_time = Some (1/2)\<rparr>]"
    by blast
  from f show ?thesis unfolding e by simp
qed

theorem completed_request_timestamps_witness:
  "fresh capped_model \<and> \<not> isl completed_run \<and>
   hd (processed_requests (w_model (projr completed_run)))
     \<in> set (processed_requests (w_model (projr completed_run))) \<and>
   0 < service_time_min (w_model (projr completed_run)) \<and>
   0 < service_time_max (w_model (projr completed_run)) \<and>
   get_response_time (hd (processed_requests (w_model (projr completed_run)))) = Some (1/2) \<and>
   the (start_time (hd (processed_requests (w_model (projr completed_run)))))
     < the (finish_time (hd (processed_requests (w_model (projr completed_run)))))"
proof -
  let ?R = "\<lparr>request_id = 0, arrival_time = 1, queue_entry_time = Some 1, start_time = Some 1,
           finish_time = Some (3/2), node_id = Some 0, rejected = False,
           rejected_reason = None, service_time = Some (1/2)\<rparr>"
  from completed_run_value obtain w where e: "completed_run = Inr w"
    and f: "processed_requests (w_model w) = [?R]"
    and cfg: "service_time_min (w_model w) = 1/2" "service_time_max (w_model w) = 2"
    by blast
  from e have r: "run [Arrive 1 (1/2), Worker_get 0, Net_done 0, Slot_granted 0, Service_done 0]
      (start_world capped_model demo_scaler) = Inr w"
    by (simp only: completed_run_def)
  from f have mem: "?R \<in> set (processed_requests (w_model w))" by simp
  from completed_request_timestamps [OF capped_fresh r mem]
  have resp: "get_response_time ?R = Some (1/2)"
    by (elim exE conjE) simp
  have lt: "the (start_time ?R) < the (finish_time ?R)" by simp
  from resp lt cfg f capped_fresh show ?thesis unfolding e by simp
qed








end
